theory Spec2Isabelle
  imports Main "HOL-Library.Word"
begin

section \<open>Data model\<close>

text \<open>
  The function reference resolver of the router (package router). Go's \<open>int\<close> is the
  64-bit signed integer of the platforms the router is built for: weights and prefix sums
  are 64-bit words, \<open>+\<close> wraps around and \<open>sint\<close> reads the signed value.
  Go maps and slices are reference types: a result struct holds a reference to its function
  map and to the array behind its distribution list, so both live in an explicit heap and
  the struct stores addresses.
\<close>

type_synonym go_int = "64 word"
type_synonym addr = nat

text \<open>
  Kubernetes objects: the metadata fields the resolver reads, and a specification. A
  function's specification is opaque here. \<open>*fv1.Function\<close> values are pointers to
  objects owned by the informer store; the resolver never writes through them, and the
  model identifies such a pointer with the object it points to.
\<close>

record ObjectMeta =
  Namespace :: string
  Name :: string
  ResourceVersion :: string

record 'spec K8sObject =
  ObjectMeta :: ObjectMeta
  Spec :: 'spec

type_synonym Function = "string K8sObject"

text \<open>
  The kind of a function reference. The Go type and its two constants are declared in the
  API package; the resolver distinguishes the two kinds it names from every other value,
  which reaches the \<open>default\<close> branch of its switch. The field \<open>Name\<close> of the Go
  struct FunctionReference is \<open>RefName\<close> here (\<open>Name\<close> is the metadata field), and
  \<open>FunctionWeights\<close> is a Go map from function name to weight.
\<close>

datatype FunctionReferenceType =
    FunctionReferenceTypeFunctionName
  | FunctionReferenceTypeFunctionWeights
  | OtherFunctionReferenceType string

record FunctionReference =
  Type :: FunctionReferenceType
  RefName :: string
  FunctionWeights :: "string \<rightharpoonup> go_int"

record HTTPTriggerSpec =
  FunctionReference :: FunctionReference

type_synonym HTTPTrigger = "HTTPTriggerSpec K8sObject"

text \<open>
  The resolver's own types. In \<open>resolveResult\<close>, \<open>functionMap\<close> is the address of
  a Go map from function name to function, and \<open>functionWtDistributionList\<close> is a slice:
  \<open>None\<close> is the nil slice, \<open>Some a\<close> a slice over the whole array at address
  \<open>a\<close>.
\<close>

datatype resolveResultType = resolveResultSingleFunction | resolveResultMultipleFunctions

record functionWeightDistribution =
  name :: string
  weight :: go_int
  sumPrefix :: go_int

record resolveResult =
  resolveResultType :: resolveResultType
  functionMap :: addr
  functionWtDistributionList :: "addr option"

record namespacedTriggerReference =
  namespace :: string
  triggerName :: string
  triggerResourceVersion :: string

record heap =
  maps :: "addr \<rightharpoonup> (string \<rightharpoonup> Function)"
  arrays :: "addr \<rightharpoonup> functionWeightDistribution list"
  fresh :: addr

text \<open>
  The informer store of a namespace is a collaborator outside the repository (the indexed
  object store of the Kubernetes client library). Its \<open>Get\<close> is called with a namespace
  and a name and returns an object, a found flag and an error: the three outcomes the
  resolver tells apart. The store of the function informer holds function objects only, so
  the resolver's type assertion on a found object does not fail.
\<close>

datatype StoreGet = GetError string | NotExist | Exists Function

text \<open>
  The errors resolve returns: \<open>InformerNotFound ns\<close> is "informer for namespace ns not
  found", \<open>FunctionDoesNotExist ns n\<close> is "function ns/n does not exist",
  \<open>UnrecognizedFunctionReferenceType t\<close> is "unrecognized function reference type t",
  and \<open>StoreError e\<close> is an error \<open>e\<close> of the store's \<open>Get\<close>, passed on as it
  is.
\<close>

datatype error =
    InformerNotFound string
  | StoreError string
  | FunctionDoesNotExist string string
  | UnrecognizedFunctionReferenceType FunctionReferenceType

text \<open>
  Modelled from the spec: the generic expiring cache that the resolver imports (package
  cache of the repository), whose source is not part of this development. Section 4.2 of
  the specification describes it: every entry has a fixed time to live, taken from the
  cache's configuration and applied when the entry is set. An entry keeps its value and the
  time it was set; time is a count of nanoseconds.
\<close>

record 'v Value =
  val :: 'v
  ctime :: nat

record ('k, 'v) Cache =
  entries :: "'k \<rightharpoonup> 'v Value"
  ttl :: nat

text \<open>
  A store is its \<open>Get\<close>. A trace lists the store lookups a call performs, in order, as
  (namespace, name) pairs. The resolver holds its cache and the store of each namespace;
  its logger has no effect on results and is left out.
\<close>

type_synonym Store = "string \<Rightarrow> string \<Rightarrow> StoreGet"
type_synonym trace = "(string \<times> string) list"

record functionReferenceResolver =
  refCache :: "(namespacedTriggerReference, resolveResult) Cache"
  funcInformer :: "string \<rightharpoonup> Store"

section \<open>Heap operations\<close>

text \<open>
  Allocation takes the next unused address. \<open>map_elems\<close> and \<open>slice_elems\<close> read
  the contents behind a map reference and a slice. \<open>map_store\<close> is the Go assignment
  \<open>m[k] = v\<close> and \<open>slice_store\<close> the assignment \<open>s[i] = v\<close> of a caller that
  holds a result; \<open>None\<close> is the panic of a nil map or of an index out of range.
\<close>

definition alloc_map :: "(string \<rightharpoonup> Function) \<Rightarrow> heap \<Rightarrow> addr \<times> heap" where
  "alloc_map m h = (fresh h, h\<lparr>maps := (maps h)(fresh h \<mapsto> m), fresh := Suc (fresh h)\<rparr>)"

definition alloc_array :: "functionWeightDistribution list \<Rightarrow> heap \<Rightarrow> addr \<times> heap" where
  "alloc_array xs h = (fresh h, h\<lparr>arrays := (arrays h)(fresh h \<mapsto> xs), fresh := Suc (fresh h)\<rparr>)"

definition map_elems :: "heap \<Rightarrow> addr \<Rightarrow> (string \<rightharpoonup> Function)" where
  "map_elems h a = (case maps h a of None \<Rightarrow> Map.empty | Some m \<Rightarrow> m)"

definition slice_elems :: "heap \<Rightarrow> addr option \<Rightarrow> functionWeightDistribution list" where
  "slice_elems h s =
     (case s of
        None \<Rightarrow> []
      | Some a \<Rightarrow> (case arrays h a of None \<Rightarrow> [] | Some xs \<Rightarrow> xs))"

definition map_store :: "addr \<Rightarrow> string \<Rightarrow> Function \<Rightarrow> heap \<Rightarrow> heap option" where
  "map_store a k v h =
     (case maps h a of
        None \<Rightarrow> None
      | Some m \<Rightarrow> Some (h\<lparr>maps := (maps h)(a \<mapsto> m(k \<mapsto> v))\<rparr>))"

definition slice_store :: "addr option \<Rightarrow> nat \<Rightarrow> functionWeightDistribution \<Rightarrow> heap \<Rightarrow> heap option" where
  "slice_store s i v h =
     (case s of
        None \<Rightarrow> None
      | Some a \<Rightarrow>
          (case arrays h a of
             None \<Rightarrow> None
           | Some xs \<Rightarrow>
               if i < length xs then Some (h\<lparr>arrays := (arrays h)(a \<mapsto> xs[i := v])\<rparr>)
               else None))"

section \<open>The expiring cache\<close>

text \<open>
  Modelled from the spec: the cache operations the resolver calls. \<open>MakeCache\<close> builds
  an empty cache whose time to live is its first argument (the specification describes one
  time to live; the second argument of the call is not described and has no effect here).
  \<open>cache_Get\<close> finds the value of a key ("get on an expired-but-not-yet-purged entry must
  behave identically to a miss"), \<open>cache_Set\<close> "replaces or inserts" with the time to
  live counted from the time of the call, \<open>cache_Delete\<close> "removes if present" and
  reports no error, and \<open>cache_Copy\<close> is the "copy of all live entries". Values are
  stored and returned by Go assignment: a stored result struct is a copy of the struct it
  was given, holding the same map and slice references.
\<close>

definition MakeCache :: "nat \<Rightarrow> nat \<Rightarrow> ('k, 'v) Cache" where
  "MakeCache expiry other = \<lparr>entries = Map.empty, ttl = expiry\<rparr>"

definition cache_Get :: "nat \<Rightarrow> ('k, 'v) Cache \<Rightarrow> 'k \<Rightarrow> 'v option" where
  "cache_Get now c k =
     (case entries c k of
        None \<Rightarrow> None
      | Some e \<Rightarrow> if now < ctime e + ttl c then Some (val e) else None)"

definition cache_Set :: "nat \<Rightarrow> ('k, 'v) Cache \<Rightarrow> 'k \<Rightarrow> 'v \<Rightarrow> ('k, 'v) Cache" where
  "cache_Set now c k v = c\<lparr>entries := (entries c)(k \<mapsto> \<lparr>val = v, ctime = now\<rparr>)\<rparr>"

definition cache_Delete :: "('k, 'v) Cache \<Rightarrow> 'k \<Rightarrow> error option \<times> ('k, 'v) Cache" where
  "cache_Delete c k = (None, c\<lparr>entries := (entries c)(k := None)\<rparr>)"

definition cache_Copy :: "nat \<Rightarrow> ('k, 'v) Cache \<Rightarrow> ('k \<rightharpoonup> 'v)" where
  "cache_Copy now c = (\<lambda>k. cache_Get now c k)"

section \<open>The resolver\<close>

text \<open>
  \<open>makeFunctionReferenceResolver\<close>: a cache with a time to live of one minute.
\<close>

definition time_Minute :: nat where
  "time_Minute = 60000000000"

definition makeFunctionReferenceResolver :: "(string \<rightharpoonup> Store) \<Rightarrow> functionReferenceResolver" where
  "makeFunctionReferenceResolver informers =
     \<lparr>refCache = MakeCache time_Minute 0, funcInformer = informers\<rparr>"

definition getInformerByNamespace :: "functionReferenceResolver \<Rightarrow> string \<Rightarrow> error + Store" where
  "getInformerByNamespace frr ns =
     (case funcInformer frr ns of
        Some informer \<Rightarrow> Inr informer
      | None \<Rightarrow> Inl (InformerNotFound ns))"

text \<open>
  \<open>resolveByName\<close>: one lookup; a function that is found gives a result of type single
  function whose map, a new map object, holds the function under the name in its own
  metadata. The distribution list is left at its zero value, the nil slice.
\<close>

definition resolveByName ::
  "functionReferenceResolver \<Rightarrow> string \<Rightarrow> string \<Rightarrow> heap \<Rightarrow> (error + resolveResult) \<times> heap \<times> trace" where
  "resolveByName frr ns nm h =
     (case getInformerByNamespace frr ns of
        Inl err \<Rightarrow> (Inl err, h, [])
      | Inr informer \<Rightarrow>
          (case informer ns nm of
             GetError e \<Rightarrow> (Inl (StoreError e), h, [(ns, nm)])
           | NotExist \<Rightarrow> (Inl (FunctionDoesNotExist ns nm), h, [(ns, nm)])
           | Exists f \<Rightarrow>
               (let (fm, h1) = alloc_map [Name (ObjectMeta f) \<mapsto> f] h
                in (Inr \<lparr>resolveResultType = resolveResultSingleFunction,
                          functionMap = fm,
                          functionWtDistributionList = None\<rparr>, h1, [(ns, nm)]))))"

text \<open>
  \<open>resolveByFunctionWeights\<close>. Its loop ranges over the Go map \<open>fr.FunctionWeights\<close>.
  Go leaves the iteration order of a map unspecified, and it may differ from one loop to
  the next: the model takes the sequence of (name, weight) pairs that the range statement
  yields as the argument \<open>order\<close>, and \<open>range_yields m order\<close> says that \<open>order\<close> is an
  enumeration of the map \<open>m\<close>, each key once. The arguments \<open>fm\<close>,
  \<open>fnWtDistrList\<close> and \<open>sp\<close> of the loop are the local variables \<open>functionMap\<close>,
  \<open>fnWtDistrList\<close> and \<open>sumPrefix\<close>. The map and the slice are local to the call until
  the result struct is built: the model keeps them as values during the loop and places
  them in the heap when the struct is built, so a call that fails leaves the heap as it
  was.
\<close>

fun weights_loop ::
  "functionReferenceResolver \<Rightarrow> string \<Rightarrow> (string \<times> go_int) list \<Rightarrow>
   (string \<rightharpoonup> Function) \<Rightarrow> functionWeightDistribution list \<Rightarrow> go_int \<Rightarrow>
   (error + (string \<rightharpoonup> Function) \<times> functionWeightDistribution list) \<times> trace" where
  "weights_loop frr ns [] fm fnWtDistrList sp = (Inr (fm, fnWtDistrList), [])"
| "weights_loop frr ns ((functionName, functionWeight) # rest) fm fnWtDistrList sp =
     (case getInformerByNamespace frr ns of
        Inl err \<Rightarrow> (Inl err, [])
      | Inr informer \<Rightarrow>
          (case informer ns functionName of
             GetError e \<Rightarrow> (Inl (StoreError e), [(ns, functionName)])
           | NotExist \<Rightarrow> (Inl (FunctionDoesNotExist ns functionName), [(ns, functionName)])
           | Exists f \<Rightarrow>
               (let fm' = fm(Name (ObjectMeta f) \<mapsto> f);
                    sp' = sp + functionWeight;
                    fnWtDistrList' = fnWtDistrList @
                      [\<lparr>name = functionName, weight = functionWeight, sumPrefix = sp'\<rparr>];
                    (r, tr) = weights_loop frr ns rest fm' fnWtDistrList' sp'
                in (r, (ns, functionName) # tr))))"

definition resolveByFunctionWeights ::
  "functionReferenceResolver \<Rightarrow> string \<Rightarrow> (string \<times> go_int) list \<Rightarrow> heap \<Rightarrow>
   (error + resolveResult) \<times> heap \<times> trace" where
  "resolveByFunctionWeights frr ns order h =
     (case weights_loop frr ns order Map.empty [] 0 of
        (Inl err, tr) \<Rightarrow> (Inl err, h, tr)
      | (Inr (fm, fnWtDistrList), tr) \<Rightarrow>
          (let (fma, h1) = alloc_map fm h;
               (fla, h2) = alloc_array fnWtDistrList h1
           in (Inr \<lparr>resolveResultType = resolveResultMultipleFunctions,
                     functionMap = fma,
                     functionWtDistributionList = Some fla\<rparr>, h2, tr)))"

text \<open>
  \<open>resolve\<close>, at time \<open>now\<close>: the key, the cache lookup, the switch on the kind of
  the reference, and the cache update. It returns the result or the error, the resolver
  and the heap after the call, and the store lookups the call performed. The struct behind
  the returned pointer is new in both branches (a local copy of the cached value on a hit,
  the struct built by the resolution on a miss, of which the cache receives a copy), so
  the model returns the struct itself.
\<close>

definition nfr_of :: "HTTPTrigger \<Rightarrow> namespacedTriggerReference" where
  "nfr_of trigger =
     \<lparr>namespace = Namespace (ObjectMeta trigger),
      triggerName = Name (ObjectMeta trigger),
      triggerResourceVersion = ResourceVersion (ObjectMeta trigger)\<rparr>"

definition resolve ::
  "nat \<Rightarrow> (string \<times> go_int) list \<Rightarrow> HTTPTrigger \<Rightarrow> functionReferenceResolver \<Rightarrow> heap \<Rightarrow>
   (error + resolveResult) \<times> functionReferenceResolver \<times> heap \<times> trace" where
  "resolve now order trigger frr h =
     (let nfr = nfr_of trigger in
      case cache_Get now (refCache frr) nfr of
        Some result \<Rightarrow> (Inr result, frr, h, [])
      | None \<Rightarrow>
          (case Type (FunctionReference (Spec trigger)) of
             FunctionReferenceTypeFunctionName \<Rightarrow>
               (case resolveByName frr (namespace nfr) (RefName (FunctionReference (Spec trigger))) h of
                  (Inl err, h', tr) \<Rightarrow> (Inl err, frr, h', tr)
                | (Inr rr, h', tr) \<Rightarrow>
                    (Inr rr, frr\<lparr>refCache := cache_Set now (refCache frr) nfr rr\<rparr>, h', tr))
           | FunctionReferenceTypeFunctionWeights \<Rightarrow>
               (case resolveByFunctionWeights frr (namespace nfr) order h of
                  (Inl err, h', tr) \<Rightarrow> (Inl err, frr, h', tr)
                | (Inr rr, h', tr) \<Rightarrow>
                    (Inr rr, frr\<lparr>refCache := cache_Set now (refCache frr) nfr rr\<rparr>, h', tr))
           | OtherFunctionReferenceType t \<Rightarrow>
               (Inl (UnrecognizedFunctionReferenceType (OtherFunctionReferenceType t)), frr, h, [])))"

text \<open>\<open>delete\<close> and \<open>copy\<close> pass on what the cache returns.\<close>

definition delete ::
  "functionReferenceResolver \<Rightarrow> string \<Rightarrow> string \<Rightarrow> string \<Rightarrow> error option \<times> functionReferenceResolver" where
  "delete frr ns tn rv =
     (let nfr = \<lparr>namespace = ns, triggerName = tn, triggerResourceVersion = rv\<rparr>;
          (err, c) = cache_Delete (refCache frr) nfr
      in (err, frr\<lparr>refCache := c\<rparr>))"

definition copy ::
  "nat \<Rightarrow> functionReferenceResolver \<Rightarrow> (namespacedTriggerReference \<rightharpoonup> resolveResult)" where
  "copy now frr = cache_Copy now (refCache frr)"

definition range_yields :: "(string \<rightharpoonup> go_int) \<Rightarrow> (string \<times> go_int) list \<Rightarrow> bool" where
  "range_yields m order \<longleftrightarrow> distinct (map fst order) \<and> map_of order = m"

section \<open>Specification vocabulary\<close>

text \<open>
  \<open>function_exists\<close> and \<open>all_exist\<close>: the store of the namespace is registered and
  finds each name. \<open>distribution_from s xs\<close> is the list of entries with the running sums
  of the weights of \<open>xs\<close> starting from \<open>s\<close>, and \<open>found_map\<close> the map of the
  functions found for a list of names. \<open>result_distribution\<close>, \<open>result_functions\<close>
  and \<open>lookups\<close> read the outcome of a call of resolve: the contents of the distribution
  list and of the function map of its result, and its trace. \<open>cumulative l\<close> says that
  every entry of \<open>l\<close> carries the sum of the weights up to and including it.
\<close>

definition function_exists :: "Store \<Rightarrow> string \<Rightarrow> string \<Rightarrow> bool" where
  "function_exists informer ns n = (case informer ns n of Exists f \<Rightarrow> True | _ \<Rightarrow> False)"

definition all_exist :: "functionReferenceResolver \<Rightarrow> string \<Rightarrow> string list \<Rightarrow> bool" where
  "all_exist frr ns names =
     (case funcInformer frr ns of
        None \<Rightarrow> False
      | Some informer \<Rightarrow> list_all (function_exists informer ns) names)"

fun distribution_from :: "go_int \<Rightarrow> (string \<times> go_int) list \<Rightarrow> functionWeightDistribution list" where
  "distribution_from s [] = []"
| "distribution_from s ((n, w) # rest) =
     \<lparr>name = n, weight = w, sumPrefix = s + w\<rparr> # distribution_from (s + w) rest"

fun found_map :: "Store \<Rightarrow> string \<Rightarrow> string list \<Rightarrow> (string \<rightharpoonup> Function) \<Rightarrow> (string \<rightharpoonup> Function)" where
  "found_map informer ns [] fm = fm"
| "found_map informer ns (n # rest) fm =
     (case informer ns n of
        Exists f \<Rightarrow> found_map informer ns rest (fm(Name (ObjectMeta f) \<mapsto> f))
      | _ \<Rightarrow> found_map informer ns rest fm)"

definition result_distribution ::
  "(error + resolveResult) \<times> functionReferenceResolver \<times> heap \<times> trace \<Rightarrow> functionWeightDistribution list" where
  "result_distribution out =
     (case out of
        (Inr rr, frr', h', tr) \<Rightarrow> slice_elems h' (functionWtDistributionList rr)
      | (Inl err, frr', h', tr) \<Rightarrow> [])"

definition result_functions ::
  "(error + resolveResult) \<times> functionReferenceResolver \<times> heap \<times> trace \<Rightarrow> (string \<rightharpoonup> Function)" where
  "result_functions out =
     (case out of
        (Inr rr, frr', h', tr) \<Rightarrow> map_elems h' (functionMap rr)
      | (Inl err, frr', h', tr) \<Rightarrow> Map.empty)"

definition lookups ::
  "(error + resolveResult) \<times> functionReferenceResolver \<times> heap \<times> trace \<Rightarrow> trace" where
  "lookups out = snd (snd (snd out))"

definition cumulative :: "functionWeightDistribution list \<Rightarrow> bool" where
  "cumulative l \<longleftrightarrow> (\<forall>i<length l. sumPrefix (l ! i) = sum_list (map weight (take (Suc i) l)))"

definition cache_miss :: "nat \<Rightarrow> functionReferenceResolver \<Rightarrow> HTTPTrigger \<Rightarrow> bool" where
  "cache_miss now frr trigger \<longleftrightarrow> cache_Get now (refCache frr) (nfr_of trigger) = None"

text \<open>
  \<open>entry_live now frr k\<close>: the cache holds an entry under \<open>k\<close> whose time to live has
  not elapsed at time \<open>now\<close>.
\<close>

definition entry_live :: "nat \<Rightarrow> functionReferenceResolver \<Rightarrow> namespacedTriggerReference \<Rightarrow> bool" where
  "entry_live now frr k =
     (case entries (refCache frr) k of
        None \<Rightarrow> False
      | Some e \<Rightarrow> now < ctime e + ttl (refCache frr))"

text \<open>
  \<open>referenced trigger order\<close>: the function names a resolution of the trigger looks up,
  in the order of the lookups.
\<close>

definition referenced :: "HTTPTrigger \<Rightarrow> (string \<times> go_int) list \<Rightarrow> string list" where
  "referenced trigger order =
     (case Type (FunctionReference (Spec trigger)) of
        FunctionReferenceTypeFunctionName \<Rightarrow> [RefName (FunctionReference (Spec trigger))]
      | FunctionReferenceTypeFunctionWeights \<Rightarrow> map fst order
      | OtherFunctionReferenceType t \<Rightarrow> [])"

section \<open>Invariants of the cache\<close>

text \<open>
  \<open>keys_match h rr\<close>: when the distribution list of \<open>rr\<close> is not empty, the keys of its
  function map are the names in the list. \<open>tag_fits h fr rr\<close>: the type tag of \<open>rr\<close> is
  the one of the reference \<open>fr\<close>: single function with the nil distribution list for a
  reference by name, multiple functions with one entry per declared (name, weight) pair
  and no name twice for a reference by weights.
\<close>

definition keys_match :: "heap \<Rightarrow> resolveResult \<Rightarrow> bool" where
  "keys_match h rr \<longleftrightarrow>
     (slice_elems h (functionWtDistributionList rr) \<noteq> [] \<longrightarrow>
      dom (map_elems h (functionMap rr)) =
        set (map name (slice_elems h (functionWtDistributionList rr))))"

definition tag_fits :: "heap \<Rightarrow> FunctionReference \<Rightarrow> resolveResult \<Rightarrow> bool" where
  "tag_fits h fr rr =
     (case Type fr of
        FunctionReferenceTypeFunctionName \<Rightarrow>
          resolveResultType rr = resolveResultSingleFunction
          \<and> functionWtDistributionList rr = None
      | FunctionReferenceTypeFunctionWeights \<Rightarrow>
          resolveResultType rr = resolveResultMultipleFunctions
          \<and> distinct (map name (slice_elems h (functionWtDistributionList rr)))
          \<and> map_of (map (\<lambda>e. (name e, weight e)) (slice_elems h (functionWtDistributionList rr)))
              = FunctionWeights fr
      | OtherFunctionReferenceType t \<Rightarrow> False)"

text \<open>
  \<open>store_keyed frr\<close> is the contract of the informer stores: an object found for a
  namespace and a name carries that name in its metadata (the store indexes objects by the
  key computed from their own metadata). \<open>version_determines spec_of trigger\<close> says that
  the trigger's function reference is the one that belongs to its namespace, name and
  version token: the token changes whenever the trigger's specification changes.
\<close>

definition store_keyed :: "functionReferenceResolver \<Rightarrow> bool" where
  "store_keyed frr \<longleftrightarrow>
     (\<forall>ns informer n f. funcInformer frr ns = Some informer \<longrightarrow> informer ns n = Exists f \<longrightarrow>
        Name (ObjectMeta f) = n)"

definition version_determines ::
  "(namespacedTriggerReference \<Rightarrow> FunctionReference) \<Rightarrow> HTTPTrigger \<Rightarrow> bool" where
  "version_determines spec_of trigger \<longleftrightarrow> FunctionReference (Spec trigger) = spec_of (nfr_of trigger)"

definition keyed_call :: "functionReferenceResolver \<Rightarrow> HTTPTrigger \<Rightarrow> bool" where
  "keyed_call frr trigger \<longleftrightarrow> store_keyed frr"

definition versioned_call ::
  "(namespacedTriggerReference \<Rightarrow> FunctionReference) \<Rightarrow> functionReferenceResolver \<Rightarrow> HTTPTrigger \<Rightarrow> bool" where
  "versioned_call spec_of frr trigger \<longleftrightarrow> version_determines spec_of trigger"

text \<open>
  The states a resolver and the heap reach: a new resolver, then calls of resolve (each
  under the condition \<open>P\<close> on resolver and trigger, with an iteration order that
  enumerates the trigger's weights), calls of delete, and updates of the informer stores
  by their watches. The heap changes by the allocations of resolve only: no holder of a
  result writes through it.
\<close>

inductive reachable ::
  "(functionReferenceResolver \<Rightarrow> HTTPTrigger \<Rightarrow> bool) \<Rightarrow> functionReferenceResolver \<Rightarrow> heap \<Rightarrow> bool"
  for P where
    start: "reachable P (makeFunctionReferenceResolver informers) h"
  | resolved:
      "reachable P frr h \<Longrightarrow> P frr trigger \<Longrightarrow>
       range_yields (FunctionWeights (FunctionReference (Spec trigger))) order \<Longrightarrow>
       resolve now order trigger frr h = (out, frr', h', tr) \<Longrightarrow> reachable P frr' h'"
  | deleted:
      "reachable P frr h \<Longrightarrow> delete frr ns tn rv = (err, frr') \<Longrightarrow> reachable P frr' h"
  | informed:
      "reachable P frr h \<Longrightarrow> reachable P (frr\<lparr>funcInformer := informers\<rparr>) h"

text \<open>
  \<open>heap_extends h h'\<close>: \<open>h'\<close> has what \<open>h\<close> has allocated, unchanged. \<open>allocated h rr\<close>:
  the references of \<open>rr\<close> are allocated in \<open>h\<close>. \<open>cache_keys_match\<close> and
  \<open>cache_tags_fit\<close>: every cached result is allocated and satisfies \<open>keys_match\<close>, or
  fits the reference that belongs to its key.
\<close>

definition heap_extends :: "heap \<Rightarrow> heap \<Rightarrow> bool" where
  "heap_extends h h' \<longleftrightarrow>
     fresh h \<le> fresh h' \<and> (\<forall>a<fresh h. maps h' a = maps h a \<and> arrays h' a = arrays h a)"

definition allocated :: "heap \<Rightarrow> resolveResult \<Rightarrow> bool" where
  "allocated h rr \<longleftrightarrow>
     functionMap rr < fresh h
     \<and> (case functionWtDistributionList rr of None \<Rightarrow> True | Some a \<Rightarrow> a < fresh h)"

definition cache_keys_match :: "heap \<Rightarrow> functionReferenceResolver \<Rightarrow> bool" where
  "cache_keys_match h frr \<longleftrightarrow>
     (\<forall>k e. entries (refCache frr) k = Some e \<longrightarrow> allocated h (val e) \<and> keys_match h (val e))"

definition cache_tags_fit ::
  "(namespacedTriggerReference \<Rightarrow> FunctionReference) \<Rightarrow> heap \<Rightarrow> functionReferenceResolver \<Rightarrow> bool" where
  "cache_tags_fit spec_of h frr \<longleftrightarrow>
     (\<forall>k e. entries (refCache frr) k = Some e \<longrightarrow>
        allocated h (val e) \<and> tag_fits h (spec_of k) (val e))"




section \<open>A concrete cluster\<close>

text \<open>
  Namespace "default" with the functions f1, fA and fB, a new resolver, an empty heap, and
  the triggers of the specification's scenarios: t1 by name, t2 by weights 70 and 30, and
  t3 by two negative weights.
\<close>

definition demo_function :: "string \<Rightarrow> Function" where
  "demo_function n =
     \<lparr>ObjectMeta = \<lparr>Namespace = ''default'', Name = n, ResourceVersion = ''7''\<rparr>, Spec = ''code''\<rparr>"

definition demo_store :: Store where
  "demo_store ns n =
     (if ns = ''default'' \<and> (n = ''f1'' \<or> n = ''fA'' \<or> n = ''fB'')
      then Exists (demo_function n) else NotExist)"

definition demo_resolver :: functionReferenceResolver where
  "demo_resolver = makeFunctionReferenceResolver [''default'' \<mapsto> demo_store]"

definition empty_heap :: heap where
  "empty_heap = \<lparr>maps = Map.empty, arrays = Map.empty, fresh = 0\<rparr>"

definition trigger_t1 :: HTTPTrigger where
  "trigger_t1 =
     \<lparr>ObjectMeta = \<lparr>Namespace = ''default'', Name = ''t1'', ResourceVersion = ''v1''\<rparr>,
      Spec = \<lparr>FunctionReference =
        \<lparr>Type = FunctionReferenceTypeFunctionName, RefName = ''f1'', FunctionWeights = Map.empty\<rparr>\<rparr>\<rparr>"

definition trigger_t2 :: HTTPTrigger where
  "trigger_t2 =
     \<lparr>ObjectMeta = \<lparr>Namespace = ''default'', Name = ''t2'', ResourceVersion = ''v1''\<rparr>,
      Spec = \<lparr>FunctionReference =
        \<lparr>Type = FunctionReferenceTypeFunctionWeights, RefName = [],
         FunctionWeights = [''fA'' \<mapsto> 70, ''fB'' \<mapsto> 30]\<rparr>\<rparr>\<rparr>"

definition trigger_t3 :: HTTPTrigger where
  "trigger_t3 =
     \<lparr>ObjectMeta = \<lparr>Namespace = ''default'', Name = ''t3'', ResourceVersion = ''v1''\<rparr>,
      Spec = \<lparr>FunctionReference =
        \<lparr>Type = FunctionReferenceTypeFunctionWeights, RefName = [],
         FunctionWeights = [''fA'' \<mapsto> - 1, ''fB'' \<mapsto> - 1]\<rparr>\<rparr>\<rparr>"

text \<open>
  The state after t1 has been resolved at time 0 in the new resolver: its result, the
  resolver and the heap. A second store, without fB.
\<close>

definition demo_rr1 :: resolveResult where
  "demo_rr1 =
     \<lparr>resolveResultType = resolveResultSingleFunction, functionMap = 0,
      functionWtDistributionList = None\<rparr>"

definition demo_frr1 :: functionReferenceResolver where
  "demo_frr1 =
     demo_resolver\<lparr>refCache := cache_Set 0 (refCache demo_resolver) (nfr_of trigger_t1) demo_rr1\<rparr>"

definition demo_h1 :: heap where
  "demo_h1 =
     \<lparr>maps = [0 \<mapsto> [''f1'' \<mapsto> demo_function ''f1'']], arrays = Map.empty, fresh = Suc 0\<rparr>"

definition demo_store_without_fB :: Store where
  "demo_store_without_fB ns n = (if n = ''fB'' then NotExist else demo_store ns n)"

definition demo_resolver_without_fB :: functionReferenceResolver where
  "demo_resolver_without_fB = makeFunctionReferenceResolver [''default'' \<mapsto> demo_store_without_fB]"

text \<open>
  The state after t1 has been resolved, with f1 then removed from the store.
\<close>

definition demo_store_empty :: Store where
  "demo_store_empty ns n = NotExist"

definition demo_frr1_emptied :: functionReferenceResolver where
  "demo_frr1_emptied = demo_frr1\<lparr>funcInformer := [''default'' \<mapsto> demo_store_empty]\<rparr>"

text \<open>
  The state after t2 has been resolved at time 0 in the new resolver, with fA yielded
  first, and an assignment of function references to keys for the concrete cluster.
\<close>

definition demo_rr2 :: resolveResult where
  "demo_rr2 =
     \<lparr>resolveResultType = resolveResultMultipleFunctions, functionMap = 0,
      functionWtDistributionList = Some (Suc 0)\<rparr>"

definition demo_frr2 :: functionReferenceResolver where
  "demo_frr2 =
     demo_resolver\<lparr>refCache := cache_Set 0 (refCache demo_resolver) (nfr_of trigger_t2) demo_rr2\<rparr>"

definition demo_h2 :: heap where
  "demo_h2 =
     \<lparr>maps = [0 \<mapsto> [''fA'' \<mapsto> demo_function ''fA'', ''fB'' \<mapsto> demo_function ''fB'']],
      arrays = [Suc 0 \<mapsto> [\<lparr>name = ''fA'', weight = 70, sumPrefix = 70\<rparr>,
                            \<lparr>name = ''fB'', weight = 30, sumPrefix = 100\<rparr>]],
      fresh = Suc (Suc 0)\<rparr>"

definition demo_spec_of :: "namespacedTriggerReference \<Rightarrow> FunctionReference" where
  "demo_spec_of k =
     (if triggerName k = ''t1'' then FunctionReference (Spec trigger_t1)
      else FunctionReference (Spec trigger_t2))"

text \<open>
  The heap after a caller that holds the result of resolving t1 has assigned, through the
  result's function map, the function fB to the key f1.
\<close>

definition demo_h1_written :: heap where
  "demo_h1_written =
     \<lparr>maps = [0 \<mapsto> [''f1'' \<mapsto> demo_function ''fB'']], arrays = Map.empty, fresh = Suc 0\<rparr>"





section \<open>Facts about the model\<close>

text \<open>
  Lemmas shared by the theorems below: the loop over the weights, the running sums, the
  ways resolve returns, the concrete cluster evaluated, and the invariants of the cache.
\<close>

subsection \<open>The loop over the declared weights\<close>

lemma weights_loop_all_exist:
  "funcInformer frr ns = Some informer \<Longrightarrow>
   list_all (function_exists informer ns) (map fst order) \<Longrightarrow>
   weights_loop frr ns order fm acc sp =
     (Inr (found_map informer ns (map fst order) fm, acc @ distribution_from sp order),
      map (\<lambda>p. (ns, fst p)) order)"
proof (induction order arbitrary: fm acc sp)
  case Nil
  then show ?case by simp
next
  case (Cons p rest)
  obtain n w where p: "p = (n, w)" by (cases p)
  from Cons.prems(2) p obtain f where f: "informer ns n = Exists f"
    by (auto simp: function_exists_def split: StoreGet.splits)
  from Cons.prems(2) have rest: "list_all (function_exists informer ns) (map fst rest)"
    by simp
  show ?case
    using Cons.IH[OF Cons.prems(1) rest] Cons.prems(1) f p
    by (simp add: getInformerByNamespace_def Let_def)
qed

lemma resolveByFunctionWeights_all_exist:
  assumes "funcInformer frr ns = Some informer"
    and "list_all (function_exists informer ns) (map fst order)"
  shows "resolveByFunctionWeights frr ns order h =
     (Inr \<lparr>resolveResultType = resolveResultMultipleFunctions,
           functionMap = fresh h,
           functionWtDistributionList = Some (Suc (fresh h))\<rparr>,
      h\<lparr>maps := (maps h)(fresh h \<mapsto> found_map informer ns (map fst order) Map.empty),
        arrays := (arrays h)(Suc (fresh h) \<mapsto> distribution_from 0 order),
        fresh := Suc (Suc (fresh h))\<rparr>,
      map (\<lambda>p. (ns, fst p)) order)"
  by (simp add: resolveByFunctionWeights_def weights_loop_all_exist[OF assms]
      alloc_map_def alloc_array_def)

lemma namespace_nfr_of [simp]: "namespace (nfr_of trigger) = Namespace (ObjectMeta trigger)"
  by (simp add: nfr_of_def)

lemma resolve_hit:
  "cache_Get now (refCache frr) (nfr_of trigger) = Some r \<Longrightarrow>
   resolve now order trigger frr h = (Inr r, frr, h, [])"
  by (simp add: resolve_def Let_def)

lemma resolve_miss_weights:
  "cache_Get now (refCache frr) (nfr_of trigger) = None \<Longrightarrow>
   Type (FunctionReference (Spec trigger)) = FunctionReferenceTypeFunctionWeights \<Longrightarrow>
   resolve now order trigger frr h =
     (case resolveByFunctionWeights frr (Namespace (ObjectMeta trigger)) order h of
        (Inl err, h', tr) \<Rightarrow> (Inl err, frr, h', tr)
      | (Inr rr, h', tr) \<Rightarrow>
          (Inr rr, frr\<lparr>refCache := cache_Set now (refCache frr) (nfr_of trigger) rr\<rparr>, h', tr))"
  by (simp add: resolve_def Let_def)

lemma resolve_miss_name:
  "cache_Get now (refCache frr) (nfr_of trigger) = None \<Longrightarrow>
   Type (FunctionReference (Spec trigger)) = FunctionReferenceTypeFunctionName \<Longrightarrow>
   resolve now order trigger frr h =
     (case resolveByName frr (Namespace (ObjectMeta trigger))
             (RefName (FunctionReference (Spec trigger))) h of
        (Inl err, h', tr) \<Rightarrow> (Inl err, frr, h', tr)
      | (Inr rr, h', tr) \<Rightarrow>
          (Inr rr, frr\<lparr>refCache := cache_Set now (refCache frr) (nfr_of trigger) rr\<rparr>, h', tr))"
  by (simp add: resolve_def Let_def)

lemma resolve_miss_other:
  "cache_Get now (refCache frr) (nfr_of trigger) = None \<Longrightarrow>
   Type (FunctionReference (Spec trigger)) = OtherFunctionReferenceType t \<Longrightarrow>
   resolve now order trigger frr h =
     (Inl (UnrecognizedFunctionReferenceType (OtherFunctionReferenceType t)), frr, h, [])"
  by (simp add: resolve_def Let_def)

lemma resolve_weights_all_exist:
  assumes miss: "cache_Get now (refCache frr) (nfr_of trigger) = None"
    and ty: "Type (FunctionReference (Spec trigger)) = FunctionReferenceTypeFunctionWeights"
    and ex: "all_exist frr (Namespace (ObjectMeta trigger)) (map fst order)"
  shows "result_distribution (resolve now order trigger frr h) = distribution_from 0 order"
proof -
  from ex obtain informer where inf: "funcInformer frr (Namespace (ObjectMeta trigger)) = Some informer"
    and all: "list_all (function_exists informer (Namespace (ObjectMeta trigger))) (map fst order)"
    by (auto simp: all_exist_def split: option.splits)
  show ?thesis
    by (simp add: resolve_miss_weights[OF miss ty] resolveByFunctionWeights_all_exist[OF inf all]
        result_distribution_def slice_elems_def)
qed

subsection \<open>Running sums\<close>

lemma length_distribution_from [simp]: "length (distribution_from s xs) = length xs"
  by (induction xs arbitrary: s) auto

lemma map_name_distribution_from [simp]: "map name (distribution_from s xs) = map fst xs"
  by (induction xs arbitrary: s) auto

lemma map_weight_distribution_from [simp]: "map weight (distribution_from s xs) = map snd xs"
  by (induction xs arbitrary: s) auto

lemma pairs_distribution_from:
  "map (\<lambda>e. (name e, weight e)) (distribution_from s xs) = xs"
  by (induction xs arbitrary: s) auto

lemma sumPrefix_distribution_from:
  "i < length xs \<Longrightarrow>
   sumPrefix (distribution_from s xs ! i) = s + sum_list (map snd (take (Suc i) xs))"
proof (induction xs arbitrary: s i)
  case Nil
  then show ?case by simp
next
  case (Cons p xs)
  obtain n w where p: "p = (n, w)" by (cases p)
  show ?case
  proof (cases i)
    case 0
    with p show ?thesis by simp
  next
    case (Suc j)
    with Cons.prems have "j < length xs" by simp
    from Cons.IH[OF this, of "s + w"] Suc p show ?thesis
      by (simp add: add.assoc)
  qed
qed

lemma cumulative_distribution_from: "cumulative (distribution_from 0 xs)"
  unfolding cumulative_def
proof (intro allI impI)
  fix i assume "i < length (distribution_from 0 xs)"
  then have i: "i < length xs" by simp
  have "map weight (take (Suc i) (distribution_from 0 xs)) = map snd (take (Suc i) xs)"
    by (simp add: take_map[symmetric])
  with sumPrefix_distribution_from[OF i, of 0]
  show "sumPrefix (distribution_from 0 xs ! i) =
        sum_list (map weight (take (Suc i) (distribution_from 0 xs)))"
    by simp
qed

lemma last_distribution_from:
  "xs \<noteq> [] \<Longrightarrow> sumPrefix (last (distribution_from s xs)) = s + sum_list (map snd xs)"
proof -
  assume ne: "xs \<noteq> []"
  then have l: "length xs - 1 < length xs" by (cases xs) auto
  have "distribution_from s xs \<noteq> []" using ne by (cases xs) auto
  then have "last (distribution_from s xs) = distribution_from s xs ! (length xs - 1)"
    by (simp add: last_conv_nth)
  with sumPrefix_distribution_from[OF l, of s] ne show ?thesis
    by (cases xs) auto
qed

text \<open>Signed reading of the sums, when nothing overflows.\<close>

lemma sint_add_no_overflow:
  fixes a b :: go_int
  assumes "0 \<le> sint a" "0 \<le> sint b" "sint a + sint b < 2 ^ 63"
  shows "sint (a + b) = sint a + sint b"
proof -
  have "sint (a + b) = signed_take_bit 63 (sint a + sint b)"
    by (simp add: sint_word_ariths)
  also have "\<dots> = sint a + sint b"
    using assms by (intro signed_take_bit_int_eq_self) auto
  finally show ?thesis .
qed

lemma sint_distribution_from:
  "list_all (\<lambda>p. 0 \<le> sint (snd p)) xs \<Longrightarrow> 0 \<le> sint s \<Longrightarrow>
   sint s + sum_list (map (\<lambda>p. sint (snd p)) xs) < 2 ^ 63 \<Longrightarrow> i < length xs \<Longrightarrow>
   sint (sumPrefix (distribution_from s xs ! i)) =
     sint s + sum_list (map (\<lambda>p. sint (snd p)) (take (Suc i) xs))"
proof (induction xs arbitrary: s i)
  case Nil
  then show ?case by simp
next
  case (Cons p xs)
  obtain n w where p: "p = (n, w)" by (cases p)
  from Cons.prems(1) p have w0: "0 \<le> sint w" and rest: "list_all (\<lambda>p. 0 \<le> sint (snd p)) xs"
    by auto
  have sum0: "0 \<le> sum_list (map (\<lambda>p. sint (snd p)) xs)"
    using rest by (induction xs) auto
  from Cons.prems(3) p sum0 have small: "sint s + sint w < 2 ^ 63" by simp
  have sw: "sint (s + w) = sint s + sint w"
    by (rule sint_add_no_overflow[OF Cons.prems(2) w0 small])
  show ?case
  proof (cases i)
    case 0
    with p sw show ?thesis by simp
  next
    case (Suc j)
    with Cons.prems(4) have j: "j < length xs" by simp
    have s0: "0 \<le> sint (s + w)" using sw Cons.prems(2) w0 by simp
    have bound: "sint (s + w) + sum_list (map (\<lambda>p. sint (snd p)) xs) < 2 ^ 63"
      using Cons.prems(3) p sw by simp
    from Cons.IH[OF rest s0 bound j] Suc p sw show ?thesis by simp
  qed
qed

lemma sum_list_take_Suc:
  "Suc i < length xs \<Longrightarrow>
   sum_list (map f (take (Suc (Suc i)) xs)) = sum_list (map f (take (Suc i) xs)) + f (xs ! Suc i)"
  by (simp add: take_Suc_conv_app_nth[of "Suc i" xs])

lemma sum_list_take_mono:
  fixes f :: "'a \<Rightarrow> int"
  assumes "list_all (\<lambda>x. 0 \<le> f x) xs" "i \<le> j"
  shows "sum_list (map f (take i xs)) \<le> sum_list (map f (take j xs))"
proof -
  from assms(2) obtain k where j: "j = i + k" by (auto simp: le_iff_add)
  have "take j xs = take i xs @ take k (drop i xs)"
    by (simp add: j take_add)
  moreover have "0 \<le> sum_list (map f (take k (drop i xs)))"
  proof (rule sum_list_nonneg)
    fix y assume "y \<in> set (map f (take k (drop i xs)))"
    then obtain x where "x \<in> set xs" "y = f x"
      by (auto dest!: in_set_takeD in_set_dropD)
    with assms(1) show "0 \<le> y" by (auto simp: list_all_iff)
  qed
  ultimately show ?thesis by simp
qed

lemma sorted_distribution_from:
  assumes nonneg: "list_all (\<lambda>p. 0 \<le> sint (snd p)) xs"
    and bound: "sum_list (map (\<lambda>p. sint (snd p)) xs) < 2 ^ 63"
  shows "sorted (map (\<lambda>e. sint (sumPrefix e)) (distribution_from 0 xs))"
proof (subst sorted_iff_nth_mono, intro allI impI)
  fix i j
  assume ij: "i \<le> j" and j: "j < length (map (\<lambda>e. sint (sumPrefix e)) (distribution_from 0 xs))"
  then have jl: "j < length xs" and il: "i < length xs" by simp_all
  have b: "sint (0 :: go_int) + sum_list (map (\<lambda>p. sint (snd p)) xs) < 2 ^ 63"
    using bound by simp
  have z: "0 \<le> sint (0 :: go_int)" by simp
  have "sum_list (map (\<lambda>p. sint (snd p)) (take (Suc i) xs))
        \<le> sum_list (map (\<lambda>p. sint (snd p)) (take (Suc j) xs))"
    using sum_list_take_mono[OF nonneg, of "Suc i" "Suc j"] ij by simp
  then show "map (\<lambda>e. sint (sumPrefix e)) (distribution_from 0 xs) ! i
        \<le> map (\<lambda>e. sint (sumPrefix e)) (distribution_from 0 xs) ! j"
    using sint_distribution_from[OF nonneg z b il] sint_distribution_from[OF nonneg z b jl] il jl
    by simp
qed

lemma strict_distribution_from:
  assumes nonneg: "list_all (\<lambda>p. 0 \<le> sint (snd p)) xs"
    and bound: "sum_list (map (\<lambda>p. sint (snd p)) xs) < 2 ^ 63"
    and i: "Suc i < length xs"
    and pos: "0 < sint (snd (xs ! Suc i))"
  shows "sint (sumPrefix (distribution_from 0 xs ! i))
         < sint (sumPrefix (distribution_from 0 xs ! Suc i))"
proof -
  have b: "sint (0 :: go_int) + sum_list (map (\<lambda>p. sint (snd p)) xs) < 2 ^ 63"
    using bound by simp
  have z: "0 \<le> sint (0 :: go_int)" by simp
  from i have i': "i < length xs" by simp
  show ?thesis
    using sint_distribution_from[OF nonneg z b i'] sint_distribution_from[OF nonneg z b i]
      sum_list_take_Suc[OF i, of "\<lambda>p. sint (snd p)"] pos
    by simp
qed

lemma sint_last_distribution_from:
  assumes nonneg: "list_all (\<lambda>p. 0 \<le> sint (snd p)) xs"
    and bound: "sum_list (map (\<lambda>p. sint (snd p)) xs) < 2 ^ 63"
    and ne: "xs \<noteq> []"
  shows "sint (sumPrefix (last (distribution_from 0 xs))) = sum_list (map (\<lambda>p. sint (snd p)) xs)"
proof -
  have b: "sint (0 :: go_int) + sum_list (map (\<lambda>p. sint (snd p)) xs) < 2 ^ 63"
    using bound by simp
  have z: "0 \<le> sint (0 :: go_int)" by simp
  from ne have l: "length xs - 1 < length xs" by (cases xs) auto
  have "distribution_from 0 xs \<noteq> []" using ne by (cases xs) auto
  then have "last (distribution_from 0 xs) = distribution_from 0 xs ! (length xs - 1)"
    by (simp add: last_conv_nth)
  with sint_distribution_from[OF nonneg z b l] ne show ?thesis
    by (cases xs) auto
qed

subsection \<open>Outcomes of resolve\<close>

lemma resolveByName_found:
  assumes "funcInformer frr ns = Some informer" and "informer ns nm = Exists f"
  shows "resolveByName frr ns nm h =
     (Inr \<lparr>resolveResultType = resolveResultSingleFunction,
           functionMap = fresh h,
           functionWtDistributionList = None\<rparr>,
      h\<lparr>maps := (maps h)(fresh h \<mapsto> [Name (ObjectMeta f) \<mapsto> f]), fresh := Suc (fresh h)\<rparr>,
      [(ns, nm)])"
  using assms by (simp add: resolveByName_def getInformerByNamespace_def alloc_map_def)

lemma resolveByName_error:
  "resolveByName frr ns nm h = (Inl err, h', tr) \<Longrightarrow> h' = h"
  by (auto simp: resolveByName_def getInformerByNamespace_def alloc_map_def
      split: option.splits StoreGet.splits)

lemma resolveByFunctionWeights_error:
  "resolveByFunctionWeights frr ns order h = (Inl err, h', tr) \<Longrightarrow> h' = h"
  by (auto simp: resolveByFunctionWeights_def alloc_map_def alloc_array_def
      split: prod.splits sum.splits)

lemma resolve_Inl_D:
  assumes "resolve now order trigger frr h = (Inl err, frr', h', tr)"
  shows "frr' = frr \<and> h' = h \<and> cache_Get now (refCache frr) (nfr_of trigger) = None"
proof (cases "cache_Get now (refCache frr) (nfr_of trigger)")
  case (Some r)
  with assms show ?thesis by (simp add: resolve_hit)
next
  case None
  show ?thesis
  proof (cases "Type (FunctionReference (Spec trigger))")
    case FunctionReferenceTypeFunctionName
    with assms None show ?thesis
      by (auto simp: resolve_miss_name split: prod.splits sum.splits dest: resolveByName_error)
  next
    case FunctionReferenceTypeFunctionWeights
    with assms None show ?thesis
      by (auto simp: resolve_miss_weights split: prod.splits sum.splits
          dest: resolveByFunctionWeights_error)
  next
    case (OtherFunctionReferenceType t)
    with assms None show ?thesis
      by (auto simp: resolve_miss_other)
  qed
qed

lemma resolve_Inr_cached:
  assumes "resolve now order trigger frr h = (Inr r, frr', h', tr)"
  shows "\<exists>e. entries (refCache frr') (nfr_of trigger) = Some e \<and> val e = r"
    and "ttl (refCache frr') = ttl (refCache frr)"
proof -
  have "(\<exists>e. entries (refCache frr') (nfr_of trigger) = Some e \<and> val e = r)
        \<and> ttl (refCache frr') = ttl (refCache frr)"
  proof (cases "cache_Get now (refCache frr) (nfr_of trigger)")
    case (Some r')
    with assms show ?thesis
      by (auto simp: resolve_hit cache_Get_def split: option.splits if_splits)
  next
    case None
    show ?thesis
    proof (cases "Type (FunctionReference (Spec trigger))")
      case FunctionReferenceTypeFunctionName
      with assms None show ?thesis
        by (auto simp: resolve_miss_name cache_Set_def split: prod.splits sum.splits)
    next
      case FunctionReferenceTypeFunctionWeights
      with assms None show ?thesis
        by (auto simp: resolve_miss_weights cache_Set_def split: prod.splits sum.splits)
    next
      case (OtherFunctionReferenceType t)
      with assms None show ?thesis
        by (auto simp: resolve_miss_other)
    qed
  qed
  then show "\<exists>e. entries (refCache frr') (nfr_of trigger) = Some e \<and> val e = r"
    and "ttl (refCache frr') = ttl (refCache frr)"
    by blast+
qed

lemma cache_Get_None_later:
  "cache_Get now c k = None \<Longrightarrow> now \<le> now' \<Longrightarrow> cache_Get now' c k = None"
  by (auto simp: cache_Get_def split: option.splits if_splits)

lemma resolve_error_any_time:
  assumes "resolve now order trigger frr h = (Inl err, frr', h', tr)"
    and "cache_Get now' (refCache frr) (nfr_of trigger) = None"
  shows "resolve now' order trigger frr h = (Inl err, frr, h, tr)"
proof -
  from resolve_Inl_D[OF assms(1)] have eq: "frr' = frr" "h' = h"
    and miss: "cache_Get now (refCache frr) (nfr_of trigger) = None"
    by simp_all
  show ?thesis
  proof (cases "Type (FunctionReference (Spec trigger))")
    case FunctionReferenceTypeFunctionName
    with assms(1) miss assms(2) eq show ?thesis
      by (auto simp: resolve_miss_name split: prod.splits sum.splits)
  next
    case FunctionReferenceTypeFunctionWeights
    with assms(1) miss assms(2) eq show ?thesis
      by (auto simp: resolve_miss_weights split: prod.splits sum.splits)
  next
    case (OtherFunctionReferenceType t)
    with assms(1) miss assms(2) eq show ?thesis
      by (auto simp: resolve_miss_other)
  qed
qed

lemma weights_loop_not_exist_trace:
  "weights_loop frr ns order fm acc sp = (Inl (FunctionDoesNotExist a b), tr) \<Longrightarrow>
   tr \<noteq> [] \<and> last tr = (a, b)"
proof (induction order arbitrary: fm acc sp tr)
  case Nil
  then show ?case by simp
next
  case (Cons p rest)
  obtain n w where p: "p = (n, w)" by (cases p)
  show ?case
  proof (cases "getInformerByNamespace frr ns")
    case (Inl e)
    with Cons.prems p show ?thesis
      by (auto simp: getInformerByNamespace_def split: option.splits)
  next
    case (Inr informer)
    show ?thesis
    proof (cases "informer ns n")
      case (GetError e)
      with Cons.prems p Inr show ?thesis by simp
    next
      case NotExist
      with Cons.prems p Inr show ?thesis by auto
    next
      case (Exists f)
      obtain r tr' where rec: "weights_loop frr ns rest (fm(Name (ObjectMeta f) \<mapsto> f))
            (acc @ [\<lparr>name = n, weight = w, sumPrefix = sp + w\<rparr>]) (sp + w) = (r, tr')"
        by (cases "weights_loop frr ns rest (fm(Name (ObjectMeta f) \<mapsto> f))
            (acc @ [\<lparr>name = n, weight = w, sumPrefix = sp + w\<rparr>]) (sp + w)")
      with Cons.prems p Inr Exists have r: "r = Inl (FunctionDoesNotExist a b)"
        and tr: "tr = (ns, n) # tr'"
        by (simp_all add: Let_def)
      from Cons.IH[OF rec[unfolded r]] tr show ?thesis by simp
    qed
  qed
qed

lemma resolve_not_exist_trace:
  assumes "resolve now order trigger frr h = (Inl (FunctionDoesNotExist a b), frr', h', tr)"
  shows "tr \<noteq> [] \<and> last tr = (a, b)"
proof -
  from resolve_Inl_D[OF assms] have miss: "cache_Get now (refCache frr) (nfr_of trigger) = None"
    by simp
  show ?thesis
  proof (cases "Type (FunctionReference (Spec trigger))")
    case FunctionReferenceTypeFunctionName
    with assms miss show ?thesis
      by (auto simp: resolve_miss_name resolveByName_def getInformerByNamespace_def alloc_map_def
          split: prod.splits sum.splits option.splits StoreGet.splits)
  next
    case FunctionReferenceTypeFunctionWeights
    with assms miss show ?thesis
      by (auto simp: resolve_miss_weights resolveByFunctionWeights_def alloc_map_def alloc_array_def
          split: prod.splits sum.splits dest: weights_loop_not_exist_trace)
  next
    case (OtherFunctionReferenceType t)
    with assms miss show ?thesis
      by (auto simp: resolve_miss_other)
  qed
qed

subsection \<open>The concrete cluster, evaluated\<close>

lemma demo_resolver_miss: "cache_Get now (refCache demo_resolver) k = None"
  by (simp add: demo_resolver_def makeFunctionReferenceResolver_def MakeCache_def cache_Get_def)

lemma demo_resolve_t1:
  "resolve 0 order trigger_t1 demo_resolver empty_heap =
     (Inr demo_rr1, demo_frr1, demo_h1, [(''default'', ''f1'')])"
proof -
  have ty: "Type (FunctionReference (Spec trigger_t1)) = FunctionReferenceTypeFunctionName"
    by (simp add: trigger_t1_def)
  have inf: "funcInformer demo_resolver ''default'' = Some demo_store"
    by (simp add: demo_resolver_def makeFunctionReferenceResolver_def)
  have f: "demo_store ''default'' ''f1'' = Exists (demo_function ''f1'')"
    by (simp add: demo_store_def)
  have t: "Namespace (ObjectMeta trigger_t1) = ''default''"
    "RefName (FunctionReference (Spec trigger_t1)) = ''f1''"
    by (simp_all add: trigger_t1_def)
  show ?thesis
    by (simp add: resolve_miss_name[OF demo_resolver_miss ty] t
        resolveByName_found[OF inf f] demo_rr1_def demo_frr1_def demo_h1_def empty_heap_def
        demo_function_def)
qed

lemma demo_frr1_live:
  "entry_live 59000000000 demo_frr1 (nfr_of trigger_t1)"
  by (simp add: entry_live_def demo_frr1_def cache_Set_def demo_resolver_def
      makeFunctionReferenceResolver_def MakeCache_def time_Minute_def)

lemma demo_resolve_t2_without_fB:
  "resolve now [(''fA'', 70), (''fB'', 30)] trigger_t2 demo_resolver_without_fB empty_heap =
     (Inl (FunctionDoesNotExist ''default'' ''fB''), demo_resolver_without_fB, empty_heap,
      [(''default'', ''fA''), (''default'', ''fB'')])"
proof -
  have ty: "Type (FunctionReference (Spec trigger_t2)) = FunctionReferenceTypeFunctionWeights"
    and t: "Namespace (ObjectMeta trigger_t2) = ''default''"
    by (simp_all add: trigger_t2_def)
  have miss: "cache_Get now (refCache demo_resolver_without_fB) (nfr_of trigger_t2) = None"
    by (simp add: demo_resolver_without_fB_def makeFunctionReferenceResolver_def MakeCache_def
        cache_Get_def)
  have w: "resolveByFunctionWeights demo_resolver_without_fB ''default''
             [(''fA'', 70), (''fB'', 30)] empty_heap =
           (Inl (FunctionDoesNotExist ''default'' ''fB''), empty_heap,
            [(''default'', ''fA''), (''default'', ''fB'')])"
    by (simp add: resolveByFunctionWeights_def getInformerByNamespace_def
        demo_resolver_without_fB_def makeFunctionReferenceResolver_def
        demo_store_without_fB_def demo_store_def Let_def)
  show ?thesis
    by (simp add: resolve_miss_weights[OF miss ty] t w)
qed

subsection \<open>Failing lookups\<close>

lemma weights_loop_trace:
  "weights_loop frr ns order fm acc sp = (r, tr) \<Longrightarrow>
   \<exists>k\<le>length order. tr = map (Pair ns) (take k (map fst order))"
proof (induction order arbitrary: fm acc sp r tr)
  case Nil
  then show ?case by simp
next
  case (Cons p rest)
  obtain n w where p: "p = (n, w)" by (cases p)
  show ?case
  proof (cases "getInformerByNamespace frr ns")
    case (Inl e)
    with Cons.prems p have "tr = []" by simp
    then show ?thesis by (intro exI[of _ 0]) simp
  next
    case (Inr informer)
    show ?thesis
    proof (cases "informer ns n")
      case (GetError e)
      with Cons.prems p Inr have "tr = [(ns, n)]" by simp
      then show ?thesis using p by (intro exI[of _ "Suc 0"]) simp
    next
      case NotExist
      with Cons.prems p Inr have "tr = [(ns, n)]" by simp
      then show ?thesis using p by (intro exI[of _ "Suc 0"]) simp
    next
      case (Exists f)
      obtain r' tr' where rec: "weights_loop frr ns rest (fm(Name (ObjectMeta f) \<mapsto> f))
            (acc @ [\<lparr>name = n, weight = w, sumPrefix = sp + w\<rparr>]) (sp + w) = (r', tr')"
        by (cases "weights_loop frr ns rest (fm(Name (ObjectMeta f) \<mapsto> f))
            (acc @ [\<lparr>name = n, weight = w, sumPrefix = sp + w\<rparr>]) (sp + w)")
      with Cons.prems p Inr Exists have tr: "tr = (ns, n) # tr'"
        by (simp add: Let_def)
      from Cons.IH[OF rec] obtain k where k: "k \<le> length rest"
        and tr': "tr' = map (Pair ns) (take k (map fst rest))"
        by blast
      show ?thesis
        using k tr tr' p by (intro exI[of _ "Suc k"]) simp
    qed
  qed
qed

lemma weights_loop_no_informer:
  "funcInformer frr ns = None \<Longrightarrow> order \<noteq> [] \<Longrightarrow>
   weights_loop frr ns order fm acc sp = (Inl (InformerNotFound ns), [])"
  by (cases order) (auto simp: getInformerByNamespace_def)

lemma weights_loop_missing:
  "funcInformer frr ns = Some informer \<Longrightarrow>
   \<not> list_all (function_exists informer ns) (map fst order) \<Longrightarrow>
   \<exists>err tr n. weights_loop frr ns order fm acc sp = (Inl err, tr)
     \<and> n \<in> set (map fst order) \<and> \<not> function_exists informer ns n
     \<and> (informer ns n = NotExist \<and> err = FunctionDoesNotExist ns n
        \<or> (\<exists>e. informer ns n = GetError e \<and> err = StoreError e))"
proof (induction order arbitrary: fm acc sp)
  case Nil
  then show ?case by simp
next
  case (Cons p rest)
  obtain n w where p: "p = (n, w)" by (cases p)
  have inf: "getInformerByNamespace frr ns = Inr informer"
    using Cons.prems(1) by (simp add: getInformerByNamespace_def)
  show ?case
  proof (cases "informer ns n")
    case (GetError e)
    then show ?thesis
      using p inf by (auto simp: function_exists_def)
  next
    case NotExist
    then show ?thesis
      using p inf by (auto simp: function_exists_def)
  next
    case (Exists f)
    then have "function_exists informer ns n"
      by (simp add: function_exists_def)
    with Cons.prems(2) p have rest: "\<not> list_all (function_exists informer ns) (map fst rest)"
      by simp
    from Cons.IH[OF Cons.prems(1) rest,
        of "fm(Name (ObjectMeta f) \<mapsto> f)"
           "acc @ [\<lparr>name = n, weight = w, sumPrefix = sp + w\<rparr>]" "sp + w"]
    obtain err tr m where
      "weights_loop frr ns rest (fm(Name (ObjectMeta f) \<mapsto> f))
         (acc @ [\<lparr>name = n, weight = w, sumPrefix = sp + w\<rparr>]) (sp + w) = (Inl err, tr)"
      "m \<in> set (map fst rest)" "\<not> function_exists informer ns m"
      "informer ns m = NotExist \<and> err = FunctionDoesNotExist ns m
        \<or> (\<exists>e. informer ns m = GetError e \<and> err = StoreError e)"
      by blast
    then show ?thesis
      using p inf Exists
      by (intro exI[of _ err] exI[of _ "(ns, n) # tr"] exI[of _ m]) (simp add: Let_def)
  qed
qed

lemma resolveByFunctionWeights_fst:
  "fst (resolveByFunctionWeights frr ns order h) =
     (case fst (weights_loop frr ns order Map.empty [] 0) of
        Inl err \<Rightarrow> Inl err
      | Inr (fm, l) \<Rightarrow>
          Inr \<lparr>resolveResultType = resolveResultMultipleFunctions, functionMap = fresh h,
               functionWtDistributionList = Some (Suc (fresh h))\<rparr>)"
  by (simp add: resolveByFunctionWeights_def alloc_map_def alloc_array_def
      split: prod.splits sum.splits)

lemma resolveByFunctionWeights_lookups:
  "snd (snd (resolveByFunctionWeights frr ns order h)) = snd (weights_loop frr ns order Map.empty [] 0)"
  by (simp add: resolveByFunctionWeights_def alloc_map_def alloc_array_def
      split: prod.splits sum.splits)

lemma resolve_miss_fst:
  assumes "cache_Get now (refCache frr) (nfr_of trigger) = None"
  shows "fst (resolve now order trigger frr h) =
     (case Type (FunctionReference (Spec trigger)) of
        FunctionReferenceTypeFunctionName \<Rightarrow>
          fst (resolveByName frr (Namespace (ObjectMeta trigger))
                (RefName (FunctionReference (Spec trigger))) h)
      | FunctionReferenceTypeFunctionWeights \<Rightarrow>
          fst (resolveByFunctionWeights frr (Namespace (ObjectMeta trigger)) order h)
      | OtherFunctionReferenceType t \<Rightarrow>
          Inl (UnrecognizedFunctionReferenceType (OtherFunctionReferenceType t)))"
  using assms
  by (auto simp: resolve_miss_name resolve_miss_weights resolve_miss_other
      split: FunctionReferenceType.splits prod.splits sum.splits)

lemma resolve_miss_lookups:
  assumes "cache_Get now (refCache frr) (nfr_of trigger) = None"
  shows "lookups (resolve now order trigger frr h) =
     (case Type (FunctionReference (Spec trigger)) of
        FunctionReferenceTypeFunctionName \<Rightarrow>
          snd (snd (resolveByName frr (Namespace (ObjectMeta trigger))
                (RefName (FunctionReference (Spec trigger))) h))
      | FunctionReferenceTypeFunctionWeights \<Rightarrow>
          snd (snd (resolveByFunctionWeights frr (Namespace (ObjectMeta trigger)) order h))
      | OtherFunctionReferenceType t \<Rightarrow> [])"
  using assms
  by (auto simp: lookups_def resolve_miss_name resolve_miss_weights resolve_miss_other
      split: FunctionReferenceType.splits prod.splits sum.splits)

lemma resolveByName_fst:
  "fst (resolveByName frr ns nm h) =
     (case funcInformer frr ns of
        None \<Rightarrow> Inl (InformerNotFound ns)
      | Some informer \<Rightarrow>
          (case informer ns nm of
             GetError e \<Rightarrow> Inl (StoreError e)
           | NotExist \<Rightarrow> Inl (FunctionDoesNotExist ns nm)
           | Exists f \<Rightarrow>
               Inr \<lparr>resolveResultType = resolveResultSingleFunction, functionMap = fresh h,
                    functionWtDistributionList = None\<rparr>))"
  by (simp add: resolveByName_def getInformerByNamespace_def alloc_map_def
      split: option.splits StoreGet.splits)

lemma resolveByName_lookups:
  "snd (snd (resolveByName frr ns nm h)) =
     (case funcInformer frr ns of None \<Rightarrow> [] | Some informer \<Rightarrow> [(ns, nm)])"
  by (simp add: resolveByName_def getInformerByNamespace_def alloc_map_def
      split: option.splits StoreGet.splits)

subsection \<open>Successful resolutions, in full\<close>

lemma weights_loop_Inr_list:
  "weights_loop frr ns order fm acc sp = (Inr (m, l), tr) \<Longrightarrow>
   l = acc @ distribution_from sp order"
proof (induction order arbitrary: fm acc sp tr)
  case Nil
  then show ?case by simp
next
  case (Cons p rest)
  obtain n w where p: "p = (n, w)" by (cases p)
  from Cons.prems p obtain informer where inf: "getInformerByNamespace frr ns = Inr informer"
    by (cases "getInformerByNamespace frr ns") auto
  from Cons.prems p inf obtain f where f: "informer ns n = Exists f"
    by (cases "informer ns n") auto
  from Cons.prems p inf f obtain tr' where
    rec: "weights_loop frr ns rest (fm(Name (ObjectMeta f) \<mapsto> f))
            (acc @ [\<lparr>name = n, weight = w, sumPrefix = sp + w\<rparr>]) (sp + w) = (Inr (m, l), tr')"
    by (auto simp: Let_def split: prod.splits)
  from Cons.IH[OF rec] p show ?case by simp
qed

lemma weights_loop_Inr_dom:
  "store_keyed frr \<Longrightarrow> weights_loop frr ns order fm acc sp = (Inr (m, l), tr) \<Longrightarrow>
   dom m = dom fm \<union> set (map fst order)"
proof (induction order arbitrary: fm acc sp tr)
  case Nil
  then show ?case by simp
next
  case (Cons p rest)
  obtain n w where p: "p = (n, w)" by (cases p)
  from Cons.prems(2) p obtain informer where inf: "getInformerByNamespace frr ns = Inr informer"
    by (cases "getInformerByNamespace frr ns") auto
  then have inf': "funcInformer frr ns = Some informer"
    by (auto simp: getInformerByNamespace_def split: option.splits)
  from Cons.prems(2) p inf obtain f where f: "informer ns n = Exists f"
    by (cases "informer ns n") auto
  from Cons.prems(1) inf' f have nm: "Name (ObjectMeta f) = n"
    by (auto simp: store_keyed_def)
  from Cons.prems(2) p inf f obtain tr' where
    rec: "weights_loop frr ns rest (fm(Name (ObjectMeta f) \<mapsto> f))
            (acc @ [\<lparr>name = n, weight = w, sumPrefix = sp + w\<rparr>]) (sp + w) = (Inr (m, l), tr')"
    by (auto simp: Let_def split: prod.splits)
  from Cons.IH[OF Cons.prems(1) rec] p nm show ?case by auto
qed

lemma resolveByFunctionWeights_Inr_D:
  assumes "resolveByFunctionWeights frr ns order h = (Inr rr, h', tr)"
  shows "\<exists>m. rr = \<lparr>resolveResultType = resolveResultMultipleFunctions, functionMap = fresh h,
                   functionWtDistributionList = Some (Suc (fresh h))\<rparr>
           \<and> h' = h\<lparr>maps := (maps h)(fresh h \<mapsto> m),
                    arrays := (arrays h)(Suc (fresh h) \<mapsto> distribution_from 0 order),
                    fresh := Suc (Suc (fresh h))\<rparr>
           \<and> (store_keyed frr \<longrightarrow> dom m = set (map fst order))"
proof -
  obtain r tr' where loop: "weights_loop frr ns order Map.empty [] 0 = (r, tr')"
    by (cases "weights_loop frr ns order Map.empty [] 0")
  with assms obtain m l where r: "r = Inr (m, l)"
    by (cases r) (auto simp: resolveByFunctionWeights_def)
  from weights_loop_Inr_list[OF loop[unfolded r]] have l: "l = distribution_from 0 order"
    by simp
  have d: "store_keyed frr \<longrightarrow> dom m = set (map fst order)"
    using weights_loop_Inr_dom[OF _ loop[unfolded r]] by simp
  from assms loop r l have
    "rr = \<lparr>resolveResultType = resolveResultMultipleFunctions, functionMap = fresh h,
           functionWtDistributionList = Some (Suc (fresh h))\<rparr>"
    "h' = h\<lparr>maps := (maps h)(fresh h \<mapsto> m),
            arrays := (arrays h)(Suc (fresh h) \<mapsto> distribution_from 0 order),
            fresh := Suc (Suc (fresh h))\<rparr>"
    by (auto simp: resolveByFunctionWeights_def alloc_map_def alloc_array_def)
  with d show ?thesis by blast
qed

lemma resolveByName_Inr_D:
  assumes "resolveByName frr ns nm h = (Inr rr, h', tr)"
  shows "\<exists>m. rr = \<lparr>resolveResultType = resolveResultSingleFunction, functionMap = fresh h,
                   functionWtDistributionList = None\<rparr>
           \<and> h' = h\<lparr>maps := (maps h)(fresh h \<mapsto> m), fresh := Suc (fresh h)\<rparr>"
  using assms
  by (auto simp: resolveByName_def getInformerByNamespace_def alloc_map_def
      split: option.splits StoreGet.splits)

text \<open>The three ways resolve returns.\<close>

lemma resolve_cases:
  assumes "resolve now order trigger frr h = (out, frr', h', tr)"
  obtains
    (hit) r where "cache_Get now (refCache frr) (nfr_of trigger) = Some r"
      "out = Inr r" "frr' = frr" "h' = h" "tr = []"
  | (failed) err where "cache_Get now (refCache frr) (nfr_of trigger) = None"
      "out = Inl err" "frr' = frr" "h' = h"
  | (by_name) rr where "cache_Get now (refCache frr) (nfr_of trigger) = None"
      "Type (FunctionReference (Spec trigger)) = FunctionReferenceTypeFunctionName"
      "resolveByName frr (Namespace (ObjectMeta trigger))
         (RefName (FunctionReference (Spec trigger))) h = (Inr rr, h', tr)"
      "out = Inr rr" "frr' = frr\<lparr>refCache := cache_Set now (refCache frr) (nfr_of trigger) rr\<rparr>"
  | (by_weights) rr where "cache_Get now (refCache frr) (nfr_of trigger) = None"
      "Type (FunctionReference (Spec trigger)) = FunctionReferenceTypeFunctionWeights"
      "resolveByFunctionWeights frr (Namespace (ObjectMeta trigger)) order h = (Inr rr, h', tr)"
      "out = Inr rr" "frr' = frr\<lparr>refCache := cache_Set now (refCache frr) (nfr_of trigger) rr\<rparr>"
proof (cases out)
  case (Inl err)
  with assms resolve_Inl_D[of now order trigger frr h err frr' h' tr] show ?thesis
    by (intro failed[of err]) simp_all
next
  case (Inr r)
  show ?thesis
  proof (cases "cache_Get now (refCache frr) (nfr_of trigger)")
    case (Some r')
    with assms Inr show ?thesis
      by (intro hit[of r]) (simp_all add: resolve_hit)
  next
    case None
    show ?thesis
    proof (cases "Type (FunctionReference (Spec trigger))")
      case FunctionReferenceTypeFunctionName
      with assms None Inr show ?thesis
        by (intro by_name[of r])
          (auto simp: resolve_miss_name split: prod.splits sum.splits)
    next
      case FunctionReferenceTypeFunctionWeights
      with assms None Inr show ?thesis
        by (intro by_weights[of r])
          (auto simp: resolve_miss_weights split: prod.splits sum.splits)
    next
      case (OtherFunctionReferenceType t)
      with assms None Inr show ?thesis
        by (simp add: resolve_miss_other)
    qed
  qed
qed

subsection \<open>Heap frames\<close>

lemma heap_extends_refl: "heap_extends h h"
  by (simp add: heap_extends_def)

lemma resolve_heap_extends:
  assumes "resolve now order trigger frr h = (out, frr', h', tr)"
  shows "heap_extends h h'"
  using assms
proof (cases rule: resolve_cases)
  case (hit r)
  then show ?thesis by (simp add: heap_extends_refl)
next
  case (failed err)
  then show ?thesis by (simp add: heap_extends_refl)
next
  case (by_name rr)
  from resolveByName_Inr_D[OF by_name(3)] show ?thesis
    by (auto simp: heap_extends_def)
next
  case (by_weights rr)
  from resolveByFunctionWeights_Inr_D[OF by_weights(3)] show ?thesis
    by (auto simp: heap_extends_def)
qed

lemma allocated_extends:
  "heap_extends h h' \<Longrightarrow> allocated h rr \<Longrightarrow> allocated h' rr"
  by (auto simp: heap_extends_def allocated_def split: option.splits)

lemma elems_extends:
  assumes "heap_extends h h'" and "allocated h rr"
  shows "map_elems h' (functionMap rr) = map_elems h (functionMap rr)"
    and "slice_elems h' (functionWtDistributionList rr) = slice_elems h (functionWtDistributionList rr)"
  using assms
  by (auto simp: heap_extends_def allocated_def map_elems_def slice_elems_def split: option.splits)

lemma keys_match_extends:
  "heap_extends h h' \<Longrightarrow> allocated h rr \<Longrightarrow> keys_match h' rr = keys_match h rr"
  by (simp add: keys_match_def elems_extends)

lemma tag_fits_extends:
  "heap_extends h h' \<Longrightarrow> allocated h rr \<Longrightarrow> tag_fits h' fr rr = tag_fits h fr rr"
  by (simp add: tag_fits_def elems_extends split: FunctionReferenceType.splits)

subsection \<open>Invariants kept by the resolver\<close>

lemma cache_Get_Some_D:
  "cache_Get now c k = Some r \<Longrightarrow> \<exists>e. entries c k = Some e \<and> val e = r"
  by (auto simp: cache_Get_def split: option.splits if_splits)

lemma resolve_keeps_keys_match:
  assumes inv: "cache_keys_match h frr"
    and keyed: "store_keyed frr"
    and res: "resolve now order trigger frr h = (out, frr', h', tr)"
  shows "cache_keys_match h' frr' \<and> (\<forall>rr. out = Inr rr \<longrightarrow> keys_match h' rr)"
  using res
proof (cases rule: resolve_cases)
  case (hit r)
  from cache_Get_Some_D[OF hit(1)] inv have "keys_match h r"
    by (auto simp: cache_keys_match_def)
  with hit inv show ?thesis by simp
next
  case (failed err)
  with inv show ?thesis by simp
next
  case (by_name rr)
  have ext: "heap_extends h h'" by (rule resolve_heap_extends[OF res])
  from resolveByName_Inr_D[OF by_name(3)] obtain m where
    rr: "rr = \<lparr>resolveResultType = resolveResultSingleFunction, functionMap = fresh h,
              functionWtDistributionList = None\<rparr>"
    and h': "h' = h\<lparr>maps := (maps h)(fresh h \<mapsto> m), fresh := Suc (fresh h)\<rparr>"
    by blast
  have new: "allocated h' rr \<and> keys_match h' rr"
    by (simp add: rr h' allocated_def keys_match_def slice_elems_def)
  have "cache_keys_match h' frr'"
    unfolding cache_keys_match_def
  proof (intro allI impI)
    fix k e assume e: "entries (refCache frr') k = Some e"
    show "allocated h' (val e) \<and> keys_match h' (val e)"
    proof (cases "k = nfr_of trigger")
      case True
      with e by_name(5) have "val e = rr" by (auto simp: cache_Set_def)
      with new show ?thesis by simp
    next
      case False
      with e by_name(5) have "entries (refCache frr) k = Some e" by (simp add: cache_Set_def)
      with inv have "allocated h (val e)" "keys_match h (val e)"
        by (auto simp: cache_keys_match_def)
      then show ?thesis
        using allocated_extends[OF ext] keys_match_extends[OF ext] by simp
    qed
  qed
  with new by_name(4) show ?thesis by simp
next
  case (by_weights rr)
  have ext: "heap_extends h h'" by (rule resolve_heap_extends[OF res])
  from resolveByFunctionWeights_Inr_D[OF by_weights(3)] keyed obtain m where
    rr: "rr = \<lparr>resolveResultType = resolveResultMultipleFunctions, functionMap = fresh h,
              functionWtDistributionList = Some (Suc (fresh h))\<rparr>"
    and h': "h' = h\<lparr>maps := (maps h)(fresh h \<mapsto> m),
                    arrays := (arrays h)(Suc (fresh h) \<mapsto> distribution_from 0 order),
                    fresh := Suc (Suc (fresh h))\<rparr>"
    and d: "dom m = set (map fst order)"
    by blast
  have new: "allocated h' rr \<and> keys_match h' rr"
    by (simp add: rr h' allocated_def keys_match_def slice_elems_def map_elems_def d)
  have "cache_keys_match h' frr'"
    unfolding cache_keys_match_def
  proof (intro allI impI)
    fix k e assume e: "entries (refCache frr') k = Some e"
    show "allocated h' (val e) \<and> keys_match h' (val e)"
    proof (cases "k = nfr_of trigger")
      case True
      with e by_weights(5) have "val e = rr" by (auto simp: cache_Set_def)
      with new show ?thesis by simp
    next
      case False
      with e by_weights(5) have "entries (refCache frr) k = Some e" by (simp add: cache_Set_def)
      with inv have "allocated h (val e)" "keys_match h (val e)"
        by (auto simp: cache_keys_match_def)
      then show ?thesis
        using allocated_extends[OF ext] keys_match_extends[OF ext] by simp
    qed
  qed
  with new by_weights(4) show ?thesis by simp
qed

lemma delete_entries:
  "delete frr ns tn rv = (err, frr') \<Longrightarrow> entries (refCache frr') k = Some e \<Longrightarrow>
   entries (refCache frr) k = Some e"
  by (auto simp: delete_def cache_Delete_def split: if_splits)

lemma reachable_keys_match:
  "reachable keyed_call frr h \<Longrightarrow> cache_keys_match h frr"
proof (induction rule: reachable.induct)
  case (start informers h)
  show ?case
    by (simp add: cache_keys_match_def makeFunctionReferenceResolver_def MakeCache_def)
next
  case (resolved frr h trigger order now out frr' h' tr)
  from resolved.hyps(2) have "store_keyed frr" by (simp add: keyed_call_def)
  from resolve_keeps_keys_match[OF resolved.IH this resolved.hyps(4)] show ?case by simp
next
  case (deleted frr h ns tn rv err frr')
  then show ?case
    by (auto simp: cache_keys_match_def dest: delete_entries)
next
  case (informed frr h informers)
  then show ?case by (simp add: cache_keys_match_def)
qed

lemma resolve_keeps_tags_fit:
  assumes inv: "cache_tags_fit spec_of h frr"
    and vd: "version_determines spec_of trigger"
    and rng: "range_yields (FunctionWeights (FunctionReference (Spec trigger))) order"
    and res: "resolve now order trigger frr h = (out, frr', h', tr)"
  shows "cache_tags_fit spec_of h' frr'
       \<and> (\<forall>rr. out = Inr rr \<longrightarrow> tag_fits h' (FunctionReference (Spec trigger)) rr)"
  using res
proof (cases rule: resolve_cases)
  case (hit r)
  from cache_Get_Some_D[OF hit(1)] inv have "tag_fits h (spec_of (nfr_of trigger)) r"
    by (auto simp: cache_tags_fit_def)
  with hit inv vd show ?thesis by (simp add: version_determines_def)
next
  case (failed err)
  with inv show ?thesis by simp
next
  case (by_name rr)
  have ext: "heap_extends h h'" by (rule resolve_heap_extends[OF res])
  from resolveByName_Inr_D[OF by_name(3)] obtain m where
    rr: "rr = \<lparr>resolveResultType = resolveResultSingleFunction, functionMap = fresh h,
              functionWtDistributionList = None\<rparr>"
    and h': "h' = h\<lparr>maps := (maps h)(fresh h \<mapsto> m), fresh := Suc (fresh h)\<rparr>"
    by blast
  have new: "allocated h' rr \<and> tag_fits h' (FunctionReference (Spec trigger)) rr"
    by (simp add: rr h' allocated_def tag_fits_def by_name(2))
  have "cache_tags_fit spec_of h' frr'"
    unfolding cache_tags_fit_def
  proof (intro allI impI)
    fix k e assume e: "entries (refCache frr') k = Some e"
    show "allocated h' (val e) \<and> tag_fits h' (spec_of k) (val e)"
    proof (cases "k = nfr_of trigger")
      case True
      with e by_name(5) have "val e = rr" by (auto simp: cache_Set_def)
      with new vd True show ?thesis by (simp add: version_determines_def)
    next
      case False
      with e by_name(5) have "entries (refCache frr) k = Some e" by (simp add: cache_Set_def)
      with inv have "allocated h (val e)" "tag_fits h (spec_of k) (val e)"
        by (auto simp: cache_tags_fit_def)
      then show ?thesis
        using allocated_extends[OF ext] tag_fits_extends[OF ext] by simp
    qed
  qed
  with new by_name(4) show ?thesis by simp
next
  case (by_weights rr)
  have ext: "heap_extends h h'" by (rule resolve_heap_extends[OF res])
  from resolveByFunctionWeights_Inr_D[OF by_weights(3)] obtain m where
    rr: "rr = \<lparr>resolveResultType = resolveResultMultipleFunctions, functionMap = fresh h,
              functionWtDistributionList = Some (Suc (fresh h))\<rparr>"
    and h': "h' = h\<lparr>maps := (maps h)(fresh h \<mapsto> m),
                    arrays := (arrays h)(Suc (fresh h) \<mapsto> distribution_from 0 order),
                    fresh := Suc (Suc (fresh h))\<rparr>"
    by blast
  from rng have dist: "distinct (map fst order)"
    and mo: "map_of order = FunctionWeights (FunctionReference (Spec trigger))"
    by (simp_all add: range_yields_def)
  have new: "allocated h' rr \<and> tag_fits h' (FunctionReference (Spec trigger)) rr"
    by (simp add: rr h' allocated_def tag_fits_def by_weights(2) slice_elems_def
        pairs_distribution_from dist mo)
  have "cache_tags_fit spec_of h' frr'"
    unfolding cache_tags_fit_def
  proof (intro allI impI)
    fix k e assume e: "entries (refCache frr') k = Some e"
    show "allocated h' (val e) \<and> tag_fits h' (spec_of k) (val e)"
    proof (cases "k = nfr_of trigger")
      case True
      with e by_weights(5) have "val e = rr" by (auto simp: cache_Set_def)
      with new vd True show ?thesis by (simp add: version_determines_def)
    next
      case False
      with e by_weights(5) have "entries (refCache frr) k = Some e" by (simp add: cache_Set_def)
      with inv have "allocated h (val e)" "tag_fits h (spec_of k) (val e)"
        by (auto simp: cache_tags_fit_def)
      then show ?thesis
        using allocated_extends[OF ext] tag_fits_extends[OF ext] by simp
    qed
  qed
  with new by_weights(4) show ?thesis by simp
qed

lemma reachable_tags_fit:
  "reachable (versioned_call spec_of) frr h \<Longrightarrow> cache_tags_fit spec_of h frr"
proof (induction rule: reachable.induct)
  case (start informers h)
  show ?case
    by (simp add: cache_tags_fit_def makeFunctionReferenceResolver_def MakeCache_def)
next
  case (resolved frr h trigger order now out frr' h' tr)
  from resolved.hyps(2) have "version_determines spec_of trigger"
    by (simp add: versioned_call_def)
  from resolve_keeps_tags_fit[OF resolved.IH this resolved.hyps(3,4)] show ?case by simp
next
  case (deleted frr h ns tn rv err frr')
  then show ?case
    by (auto simp: cache_tags_fit_def dest: delete_entries)
next
  case (informed frr h informers)
  then show ?case by (simp add: cache_tags_fit_def)
qed

lemma demo_function_name: "Name (ObjectMeta (demo_function n)) = n"
  by (simp add: demo_function_def)

lemma demo_resolve_t2:
  "resolve 0 [(''fA'', 70), (''fB'', 30)] trigger_t2 demo_resolver empty_heap =
     (Inr demo_rr2, demo_frr2, demo_h2, [(''default'', ''fA''), (''default'', ''fB'')])"
proof -
  have ty: "Type (FunctionReference (Spec trigger_t2)) = FunctionReferenceTypeFunctionWeights"
    and t: "Namespace (ObjectMeta trigger_t2) = ''default''"
    by (simp_all add: trigger_t2_def)
  have inf: "funcInformer demo_resolver ''default'' = Some demo_store"
    by (simp add: demo_resolver_def makeFunctionReferenceResolver_def)
  have all: "list_all (function_exists demo_store ''default'')
               (map fst [(''fA'', 70 :: go_int), (''fB'', 30)])"
    by (simp add: function_exists_def demo_store_def)
  show ?thesis
    by (simp add: resolve_miss_weights[OF demo_resolver_miss ty] t
        resolveByFunctionWeights_all_exist[OF inf all] demo_rr2_def demo_frr2_def demo_h2_def
        empty_heap_def demo_store_def demo_function_name)
qed

lemma demo_store_keyed: "store_keyed demo_resolver"
  by (auto simp: store_keyed_def demo_resolver_def makeFunctionReferenceResolver_def
      demo_store_def demo_function_def split: if_splits)







section \<open>Order of the weighted distribution\<close>

text \<open>
  C1 as stated fails: for the trigger with weights fA 70 and fB 30, the iteration over the
  map may yield fB first, and the list is then (fB, 30, 30), (fA, 70, 100).
\<close>

theorem C1_declared_order_counterexample:
  "range_yields (FunctionWeights (FunctionReference (Spec trigger_t2))) [(''fB'', 30), (''fA'', 70)]
   \<and> all_exist demo_resolver ''default'' [''fB'', ''fA'']
   \<and> cache_miss 0 demo_resolver trigger_t2
   \<and> result_distribution
        (resolve 0 [(''fB'', 30), (''fA'', 70)] trigger_t2 demo_resolver empty_heap)
      = [\<lparr>name = ''fB'', weight = 30, sumPrefix = 30\<rparr>,
         \<lparr>name = ''fA'', weight = 70, sumPrefix = 100\<rparr>]
   \<and> result_distribution
        (resolve 0 [(''fB'', 30), (''fA'', 70)] trigger_t2 demo_resolver empty_heap)
      \<noteq> [\<lparr>name = ''fA'', weight = 70, sumPrefix = 70\<rparr>,
         \<lparr>name = ''fB'', weight = 30, sumPrefix = 100\<rparr>]"
proof -
  have r: "range_yields (FunctionWeights (FunctionReference (Spec trigger_t2)))
             [(''fB'', 30), (''fA'', 70)]"
    by (auto simp: range_yields_def trigger_t2_def fun_eq_iff)
  have e: "all_exist demo_resolver ''default'' [''fB'', ''fA'']"
    by (simp add: all_exist_def demo_resolver_def makeFunctionReferenceResolver_def
        function_exists_def demo_store_def)
  have m: "cache_miss 0 demo_resolver trigger_t2"
    by (simp add: cache_miss_def demo_resolver_def makeFunctionReferenceResolver_def
        MakeCache_def cache_Get_def)
  have ty: "Type (FunctionReference (Spec trigger_t2)) = FunctionReferenceTypeFunctionWeights"
    and ns: "Namespace (ObjectMeta trigger_t2) = ''default''"
    by (simp_all add: trigger_t2_def)
  have d: "result_distribution
        (resolve 0 [(''fB'', 30), (''fA'', 70)] trigger_t2 demo_resolver empty_heap)
      = [\<lparr>name = ''fB'', weight = 30, sumPrefix = 30\<rparr>,
         \<lparr>name = ''fA'', weight = 70, sumPrefix = 100\<rparr>]"
    using resolve_weights_all_exist[OF m[unfolded cache_miss_def] ty,
        of "[(''fB'', 30), (''fA'', 70)]" empty_heap] e
    by (simp add: ns)
  show ?thesis
    using r e m d by simp
qed

text \<open>
  C1 (amended). On a cache miss, for a by-weights trigger whose referenced functions all
  exist, the distribution entries follow the order in which the iteration over the weights
  map yields the pairs: the entry names and weights, read in list order, are exactly the
  yielded pairs, and the entries are the running sums along that order. The Go map fixes
  no order, so any enumeration of the declared pairs can be the one a call sees.
\<close>

theorem C1_distribution_follows_iteration_order:
  assumes "cache_miss now frr trigger"
    and "Type (FunctionReference (Spec trigger)) = FunctionReferenceTypeFunctionWeights"
    and "range_yields (FunctionWeights (FunctionReference (Spec trigger))) order"
    and "all_exist frr (Namespace (ObjectMeta trigger)) (map fst order)"
  shows "result_distribution (resolve now order trigger frr h) = distribution_from 0 order
       \<and> map (\<lambda>e. (name e, weight e)) (result_distribution (resolve now order trigger frr h)) = order
       \<and> map_of (map (\<lambda>e. (name e, weight e)) (result_distribution (resolve now order trigger frr h)))
           = FunctionWeights (FunctionReference (Spec trigger))"
proof -
  have d: "result_distribution (resolve now order trigger frr h) = distribution_from 0 order"
    using assms(1,2,4) by (simp add: resolve_weights_all_exist cache_miss_def)
  from assms(3) have "map_of order = FunctionWeights (FunctionReference (Spec trigger))"
    by (simp add: range_yields_def)
  with d show ?thesis by (simp add: pairs_distribution_from)
qed

theorem C1_distribution_follows_iteration_order_witness:
  "cache_miss 0 demo_resolver trigger_t2
   \<and> Type (FunctionReference (Spec trigger_t2)) = FunctionReferenceTypeFunctionWeights
   \<and> range_yields (FunctionWeights (FunctionReference (Spec trigger_t2))) [(''fA'', 70), (''fB'', 30)]
   \<and> all_exist demo_resolver (Namespace (ObjectMeta trigger_t2)) (map fst [(''fA'', 70 :: go_int), (''fB'', 30)])
   \<and> result_distribution
        (resolve 0 [(''fA'', 70), (''fB'', 30)] trigger_t2 demo_resolver empty_heap)
      = [\<lparr>name = ''fA'', weight = 70, sumPrefix = 70\<rparr>,
         \<lparr>name = ''fB'', weight = 30, sumPrefix = 100\<rparr>]"
proof -
  have m: "cache_miss 0 demo_resolver trigger_t2"
    by (simp add: cache_miss_def demo_resolver_def makeFunctionReferenceResolver_def
        MakeCache_def cache_Get_def)
  have ty: "Type (FunctionReference (Spec trigger_t2)) = FunctionReferenceTypeFunctionWeights"
    by (simp add: trigger_t2_def)
  have r: "range_yields (FunctionWeights (FunctionReference (Spec trigger_t2)))
             [(''fA'', 70), (''fB'', 30)]"
    by (auto simp: range_yields_def trigger_t2_def fun_eq_iff)
  have e: "all_exist demo_resolver (Namespace (ObjectMeta trigger_t2))
             (map fst [(''fA'', 70 :: go_int), (''fB'', 30)])"
    by (simp add: all_exist_def demo_resolver_def makeFunctionReferenceResolver_def
        function_exists_def demo_store_def trigger_t2_def)
  from C1_distribution_follows_iteration_order[OF m ty r e, of empty_heap]
  have "result_distribution
          (resolve 0 [(''fA'', 70), (''fB'', 30)] trigger_t2 demo_resolver empty_heap)
        = distribution_from 0 [(''fA'', 70), (''fB'', 30)]"
    by simp
  then show ?thesis
    using m ty r e by simp
qed

section \<open>Prefix sums\<close>

text \<open>
  C2 as stated fails for weights that are negative: with the weights -1 and -1 the prefix
  sums are -1 and -2, in either order of iteration.
\<close>

theorem C2_nondecreasing_counterexample:
  "cache_miss 0 demo_resolver trigger_t3
   \<and> range_yields (FunctionWeights (FunctionReference (Spec trigger_t3))) [(''fA'', - 1), (''fB'', - 1)]
   \<and> all_exist demo_resolver ''default'' [''fA'', ''fB'']
   \<and> map (\<lambda>e. sint (sumPrefix e))
        (result_distribution
           (resolve 0 [(''fA'', - 1), (''fB'', - 1)] trigger_t3 demo_resolver empty_heap))
      = [- 1, - 2]
   \<and> \<not> sorted (map (\<lambda>e. sint (sumPrefix e))
        (result_distribution
           (resolve 0 [(''fA'', - 1), (''fB'', - 1)] trigger_t3 demo_resolver empty_heap)))"
proof -
  have m: "cache_miss 0 demo_resolver trigger_t3"
    by (simp add: cache_miss_def demo_resolver_def makeFunctionReferenceResolver_def
        MakeCache_def cache_Get_def)
  have ty: "Type (FunctionReference (Spec trigger_t3)) = FunctionReferenceTypeFunctionWeights"
    and ns: "Namespace (ObjectMeta trigger_t3) = ''default''"
    by (simp_all add: trigger_t3_def)
  have r: "range_yields (FunctionWeights (FunctionReference (Spec trigger_t3)))
             [(''fA'', - 1), (''fB'', - 1)]"
    by (auto simp: range_yields_def trigger_t3_def fun_eq_iff)
  have e: "all_exist demo_resolver ''default'' [''fA'', ''fB'']"
    by (simp add: all_exist_def demo_resolver_def makeFunctionReferenceResolver_def
        function_exists_def demo_store_def)
  have d: "result_distribution
        (resolve 0 [(''fA'', - 1), (''fB'', - 1)] trigger_t3 demo_resolver empty_heap)
      = [\<lparr>name = ''fA'', weight = - 1, sumPrefix = - 1\<rparr>,
         \<lparr>name = ''fB'', weight = - 1, sumPrefix = - 2\<rparr>]"
    using resolve_weights_all_exist[OF m[unfolded cache_miss_def] ty,
        of "[(''fA'', - 1), (''fB'', - 1)]" empty_heap] e
    by (simp add: ns)
  show ?thesis
    using m r e by (simp add: d)
qed

text \<open>
  C2 (amended). On a cache miss, for a by-weights trigger whose referenced functions all
  exist, every entry carries as sumPrefix the sum, in Go int (64-bit wrap-around)
  arithmetic, of the weights up to and including it, and the last entry carries the sum of
  all weights. When no weight is negative and the sum of the weights stays below 2^63,
  the prefix sums read as signed integers are non-decreasing in list order, strictly
  increasing wherever the next weight is positive, and the last one is the integer sum of
  the weights.
\<close>

theorem C2_prefix_sums:
  fixes h :: heap
  assumes "cache_miss now frr trigger"
    and "Type (FunctionReference (Spec trigger)) = FunctionReferenceTypeFunctionWeights"
    and "range_yields (FunctionWeights (FunctionReference (Spec trigger))) order"
    and "all_exist frr (Namespace (ObjectMeta trigger)) (map fst order)"
  defines "l \<equiv> result_distribution (resolve now order trigger frr h)"
  shows "cumulative l
       \<and> map weight l = map snd order
       \<and> (order \<noteq> [] \<longrightarrow> sumPrefix (last l) = sum_list (map snd order))
       \<and> (list_all (\<lambda>p. 0 \<le> sint (snd p)) order
            \<and> sum_list (map (\<lambda>p. sint (snd p)) order) < 2 ^ 63 \<longrightarrow>
          sorted (map (\<lambda>e. sint (sumPrefix e)) l)
          \<and> (\<forall>i. Suc i < length l \<and> 0 < sint (weight (l ! Suc i)) \<longrightarrow>
                sint (sumPrefix (l ! i)) < sint (sumPrefix (l ! Suc i)))
          \<and> (order \<noteq> [] \<longrightarrow>
                sint (sumPrefix (last l)) = sum_list (map (\<lambda>p. sint (snd p)) order)))"
proof -
  have l: "l = distribution_from 0 order"
    unfolding l_def using assms(1,2,4) by (simp add: resolve_weights_all_exist cache_miss_def)
  have c1: "cumulative l"
    by (simp add: l cumulative_distribution_from)
  have c2: "map weight l = map snd order"
    by (simp add: l)
  have c3: "order \<noteq> [] \<longrightarrow> sumPrefix (last l) = sum_list (map snd order)"
    by (simp add: l last_distribution_from)
  have c4: "sorted (map (\<lambda>e. sint (sumPrefix e)) l)"
    if "list_all (\<lambda>p. 0 \<le> sint (snd p)) order"
      "sum_list (map (\<lambda>p. sint (snd p)) order) < 2 ^ 63"
    using that by (simp add: l sorted_distribution_from)
  have c5: "sint (sumPrefix (l ! i)) < sint (sumPrefix (l ! Suc i))"
    if "list_all (\<lambda>p. 0 \<le> sint (snd p)) order"
      "sum_list (map (\<lambda>p. sint (snd p)) order) < 2 ^ 63"
      "Suc i < length l" "0 < sint (weight (l ! Suc i))" for i
  proof -
    from that(3) have i: "Suc i < length order" by (simp add: l)
    have "weight (l ! Suc i) = map weight l ! Suc i"
      using that(3) by simp
    also have "\<dots> = snd (order ! Suc i)"
      using i by (simp add: c2)
    finally have "0 < sint (snd (order ! Suc i))" using that(4) by simp
    from strict_distribution_from[OF that(1,2) i this] show ?thesis by (simp add: l)
  qed
  have c6: "sint (sumPrefix (last l)) = sum_list (map (\<lambda>p. sint (snd p)) order)"
    if "list_all (\<lambda>p. 0 \<le> sint (snd p)) order"
      "sum_list (map (\<lambda>p. sint (snd p)) order) < 2 ^ 63" "order \<noteq> []"
    using that by (simp add: l sint_last_distribution_from)
  show ?thesis
    using c1 c2 c3 c4 c5 c6 by blast
qed

theorem C2_prefix_sums_witness:
  "cache_miss 0 demo_resolver trigger_t2
   \<and> Type (FunctionReference (Spec trigger_t2)) = FunctionReferenceTypeFunctionWeights
   \<and> range_yields (FunctionWeights (FunctionReference (Spec trigger_t2))) [(''fA'', 70), (''fB'', 30)]
   \<and> all_exist demo_resolver (Namespace (ObjectMeta trigger_t2)) (map fst [(''fA'', 70 :: go_int), (''fB'', 30)])
   \<and> list_all (\<lambda>p. 0 \<le> sint (snd p)) [(''fA'', 70 :: go_int), (''fB'', 30)]
   \<and> sum_list (map (\<lambda>p. sint (snd p)) [(''fA'', 70 :: go_int), (''fB'', 30)]) < 2 ^ 63
   \<and> cumulative (result_distribution
        (resolve 0 [(''fA'', 70), (''fB'', 30)] trigger_t2 demo_resolver empty_heap))
   \<and> sumPrefix (last (result_distribution
        (resolve 0 [(''fA'', 70), (''fB'', 30)] trigger_t2 demo_resolver empty_heap))) = 100
   \<and> sorted (map (\<lambda>e. sint (sumPrefix e)) (result_distribution
        (resolve 0 [(''fA'', 70), (''fB'', 30)] trigger_t2 demo_resolver empty_heap)))"
proof -
  have m: "cache_miss 0 demo_resolver trigger_t2"
    by (simp add: cache_miss_def demo_resolver_def makeFunctionReferenceResolver_def
        MakeCache_def cache_Get_def)
  have ty: "Type (FunctionReference (Spec trigger_t2)) = FunctionReferenceTypeFunctionWeights"
    by (simp add: trigger_t2_def)
  have r: "range_yields (FunctionWeights (FunctionReference (Spec trigger_t2)))
             [(''fA'', 70), (''fB'', 30)]"
    by (auto simp: range_yields_def trigger_t2_def fun_eq_iff)
  have e: "all_exist demo_resolver (Namespace (ObjectMeta trigger_t2))
             (map fst [(''fA'', 70 :: go_int), (''fB'', 30)])"
    by (simp add: all_exist_def demo_resolver_def makeFunctionReferenceResolver_def
        function_exists_def demo_store_def trigger_t2_def)
  have n: "list_all (\<lambda>p. 0 \<le> sint (snd p)) [(''fA'', 70 :: go_int), (''fB'', 30)]"
    by simp
  have b: "sum_list (map (\<lambda>p. sint (snd p)) [(''fA'', 70 :: go_int), (''fB'', 30)]) < 2 ^ 63"
    by simp
  from C2_prefix_sums[OF m ty r e, of empty_heap] n b
  show ?thesis
    using m ty r e by simp
qed

section \<open>Cache hits\<close>

text \<open>
  C3. If resolve succeeds for a trigger, a later call for a trigger with the same
  namespace, name and version token returns the same result and performs no store lookup,
  provided that the entry under the key is the one the first call left (nothing has
  deleted or replaced it in between) and its time to live has not elapsed at the time of
  the later call. The later call changes neither the resolver nor the heap.
\<close>

theorem C3_second_resolve_is_cache_hit:
  assumes "resolve now1 order1 trigger frr h = (Inr r, frr1, h1, tr1)"
    and "nfr_of trigger2 = nfr_of trigger"
    and "entries (refCache frr2) (nfr_of trigger) = entries (refCache frr1) (nfr_of trigger)"
    and "ttl (refCache frr2) = ttl (refCache frr1)"
    and "entry_live now2 frr2 (nfr_of trigger)"
  shows "resolve now2 order2 trigger2 frr2 h2 = (Inr r, frr2, h2, [])"
proof -
  from resolve_Inr_cached(1)[OF assms(1)] obtain e where
    e: "entries (refCache frr1) (nfr_of trigger) = Some e" and v: "val e = r"
    by blast
  from assms(3) e have e2: "entries (refCache frr2) (nfr_of trigger) = Some e"
    by simp
  from assms(5) e2 have "now2 < ctime e + ttl (refCache frr2)"
    by (simp add: entry_live_def)
  with e2 v have "cache_Get now2 (refCache frr2) (nfr_of trigger2) = Some r"
    by (simp add: cache_Get_def assms(2))
  then show ?thesis by (rule resolve_hit)
qed

theorem C3_second_resolve_is_cache_hit_witness:
  "resolve 0 [] trigger_t1 demo_resolver empty_heap =
     (Inr demo_rr1, demo_frr1, demo_h1, [(''default'', ''f1'')])
   \<and> nfr_of trigger_t1 = nfr_of trigger_t1
   \<and> entry_live 59000000000 demo_frr1 (nfr_of trigger_t1)
   \<and> resolve 59000000000 [] trigger_t1 demo_frr1 demo_h1 = (Inr demo_rr1, demo_frr1, demo_h1, [])"
  using C3_second_resolve_is_cache_hit[OF demo_resolve_t1[of "[]"] refl refl refl demo_frr1_live,
      of "[]" demo_h1]
    demo_resolve_t1[of "[]"] demo_frr1_live
  by simp

section \<open>Errors leave the cache alone\<close>

text \<open>
  C4. Whenever resolve returns an error, the resolver (its cache included) and the heap
  are as before the call, nothing is retrievable under the trigger's key then or later,
  and the same call at a later time runs the resolution again: it returns the same error
  after the same store lookups. An error for a function that does not exist comes right
  after the lookup of that function.
\<close>

theorem C4_error_leaves_cache_unchanged:
  assumes "resolve now order trigger frr h = (Inl err, frr', h', tr)"
    and "now \<le> now'"
  shows "frr' = frr \<and> h' = h
       \<and> cache_Get now' (refCache frr') (nfr_of trigger) = None
       \<and> resolve now' order trigger frr' h' = (Inl err, frr', h', tr)
       \<and> (\<forall>ns n. err = FunctionDoesNotExist ns n \<longrightarrow> tr \<noteq> [] \<and> last tr = (ns, n))"
proof -
  from resolve_Inl_D[OF assms(1)] have eq: "frr' = frr" "h' = h"
    and miss: "cache_Get now (refCache frr) (nfr_of trigger) = None"
    by simp_all
  from cache_Get_None_later[OF miss assms(2)]
  have later: "cache_Get now' (refCache frr) (nfr_of trigger) = None" .
  from resolve_error_any_time[OF assms(1) later]
  have again: "resolve now' order trigger frr h = (Inl err, frr, h, tr)" .
  have last: "\<forall>ns n. err = FunctionDoesNotExist ns n \<longrightarrow> tr \<noteq> [] \<and> last tr = (ns, n)"
    using assms(1) by (auto dest: resolve_not_exist_trace)
  show ?thesis
    using eq later again last by simp
qed

theorem C4_error_leaves_cache_unchanged_witness:
  "resolve 0 [(''fA'', 70), (''fB'', 30)] trigger_t2 demo_resolver_without_fB empty_heap =
     (Inl (FunctionDoesNotExist ''default'' ''fB''), demo_resolver_without_fB, empty_heap,
      [(''default'', ''fA''), (''default'', ''fB'')])
   \<and> (0 :: nat) \<le> 5
   \<and> cache_Get 5 (refCache demo_resolver_without_fB) (nfr_of trigger_t2) = None
   \<and> resolve 5 [(''fA'', 70), (''fB'', 30)] trigger_t2 demo_resolver_without_fB empty_heap =
     (Inl (FunctionDoesNotExist ''default'' ''fB''), demo_resolver_without_fB, empty_heap,
      [(''default'', ''fA''), (''default'', ''fB'')])"
proof -
  have le: "(0 :: nat) \<le> 5" by simp
  from C4_error_leaves_cache_unchanged[OF demo_resolve_t2_without_fB[of 0] le]
  show ?thesis
    using demo_resolve_t2_without_fB[of 0] by simp
qed

section \<open>Delete\<close>

text \<open>
  C6. delete removes the entry of exactly the key made of its three arguments and reports
  no error, whether or not the key is present. Every other entry stays as it is and is
  retrievable at the same times as before; this holds in particular for an entry of the
  same namespace and trigger name under another version token. When the key is absent the
  resolver is unchanged.
\<close>

theorem C6_delete_exact_key:
  assumes "delete frr ns tn rv = (err, frr')"
  shows "err = None
       \<and> entries (refCache frr') \<lparr>namespace = ns, triggerName = tn, triggerResourceVersion = rv\<rparr> = None
       \<and> (\<forall>k. k \<noteq> \<lparr>namespace = ns, triggerName = tn, triggerResourceVersion = rv\<rparr> \<longrightarrow>
             entries (refCache frr') k = entries (refCache frr) k)
       \<and> (\<forall>k t. k \<noteq> \<lparr>namespace = ns, triggerName = tn, triggerResourceVersion = rv\<rparr> \<longrightarrow>
             cache_Get t (refCache frr') k = cache_Get t (refCache frr) k)
       \<and> (\<forall>rv' t. rv' \<noteq> rv \<longrightarrow>
             cache_Get t (refCache frr') \<lparr>namespace = ns, triggerName = tn, triggerResourceVersion = rv'\<rparr>
             = cache_Get t (refCache frr) \<lparr>namespace = ns, triggerName = tn, triggerResourceVersion = rv'\<rparr>)
       \<and> (entries (refCache frr) \<lparr>namespace = ns, triggerName = tn, triggerResourceVersion = rv\<rparr> = None
             \<longrightarrow> frr' = frr)
       \<and> funcInformer frr' = funcInformer frr"
proof -
  let ?k = "\<lparr>namespace = ns, triggerName = tn, triggerResourceVersion = rv\<rparr>"
  from assms have err: "err = None"
    and frr': "frr' = frr\<lparr>refCache := (refCache frr)\<lparr>entries := (entries (refCache frr))(?k := None)\<rparr>\<rparr>"
    by (auto simp: delete_def cache_Delete_def)
  have gone: "entries (refCache frr') ?k = None"
    by (simp add: frr')
  have others: "\<forall>k. k \<noteq> ?k \<longrightarrow> entries (refCache frr') k = entries (refCache frr) k"
    by (simp add: frr')
  have gets: "\<forall>k t. k \<noteq> ?k \<longrightarrow> cache_Get t (refCache frr') k = cache_Get t (refCache frr) k"
    by (auto simp: frr' cache_Get_def split: option.splits)
  have tokens: "\<forall>rv' t. rv' \<noteq> rv \<longrightarrow>
      cache_Get t (refCache frr') \<lparr>namespace = ns, triggerName = tn, triggerResourceVersion = rv'\<rparr>
      = cache_Get t (refCache frr) \<lparr>namespace = ns, triggerName = tn, triggerResourceVersion = rv'\<rparr>"
    by (auto simp: frr' cache_Get_def split: option.splits)
  have noop: "entries (refCache frr) ?k = None \<longrightarrow> frr' = frr"
  proof
    assume "entries (refCache frr) ?k = None"
    then have "(entries (refCache frr))(?k := None) = entries (refCache frr)"
      by (simp add: fun_upd_idem)
    then show "frr' = frr" by (simp add: frr')
  qed
  have inf: "funcInformer frr' = funcInformer frr"
    by (simp add: frr')
  show ?thesis
    using err gone others gets tokens noop inf by blast
qed

theorem C6_delete_exact_key_witness:
  "delete demo_frr1 ''default'' ''t1'' ''v2'' = (None, demo_frr1)
   \<and> cache_Get 1 (refCache (snd (delete demo_frr1 ''default'' ''t1'' ''v2''))) (nfr_of trigger_t1)
       = Some demo_rr1"
proof -
  obtain err frr' where d: "delete demo_frr1 ''default'' ''t1'' ''v2'' = (err, frr')"
    by (cases "delete demo_frr1 ''default'' ''t1'' ''v2''")
  have absent: "entries (refCache demo_frr1)
      \<lparr>namespace = ''default'', triggerName = ''t1'', triggerResourceVersion = ''v2''\<rparr> = None"
    by (simp add: demo_frr1_def cache_Set_def nfr_of_def trigger_t1_def demo_resolver_def
        makeFunctionReferenceResolver_def MakeCache_def)
  from C6_delete_exact_key[OF d] absent have "err = None" "frr' = demo_frr1"
    by simp_all
  with d have eq: "delete demo_frr1 ''default'' ''t1'' ''v2'' = (None, demo_frr1)"
    by simp
  have "cache_Get 1 (refCache demo_frr1) (nfr_of trigger_t1) = Some demo_rr1"
    by (simp add: demo_frr1_def cache_Set_def cache_Get_def demo_resolver_def
        makeFunctionReferenceResolver_def MakeCache_def time_Minute_def)
  with eq show ?thesis by simp
qed

section \<open>Resolution by name\<close>




section \<open>When resolve fails\<close>

text \<open>
  C5 as stated fails on a cache hit: after t1 has been resolved and f1 has then been
  removed from the store, resolve still returns the cached result and no error, although
  the referenced function is absent.
\<close>

theorem C5_cache_hit_counterexample:
  "Type (FunctionReference (Spec trigger_t1)) = FunctionReferenceTypeFunctionName
   \<and> funcInformer demo_frr1_emptied ''default'' = Some demo_store_empty
   \<and> demo_store_empty ''default'' ''f1'' = NotExist
   \<and> \<not> all_exist demo_frr1_emptied ''default'' [''f1'']
   \<and> resolve 1 [] trigger_t1 demo_frr1_emptied demo_h1 = (Inr demo_rr1, demo_frr1_emptied, demo_h1, [])
   \<and> \<not> isl (fst (resolve 1 [] trigger_t1 demo_frr1_emptied demo_h1))"
proof -
  have hit: "cache_Get 1 (refCache demo_frr1_emptied) (nfr_of trigger_t1) = Some demo_rr1"
    by (simp add: demo_frr1_emptied_def demo_frr1_def cache_Set_def cache_Get_def
        demo_resolver_def makeFunctionReferenceResolver_def MakeCache_def time_Minute_def)
  have r: "resolve 1 [] trigger_t1 demo_frr1_emptied demo_h1
           = (Inr demo_rr1, demo_frr1_emptied, demo_h1, [])"
    by (rule resolve_hit[OF hit])
  have inf: "funcInformer demo_frr1_emptied ''default'' = Some demo_store_empty"
    by (simp add: demo_frr1_emptied_def)
  have ne: "\<not> all_exist demo_frr1_emptied ''default'' [''f1'']"
    by (simp add: all_exist_def inf function_exists_def demo_store_empty_def)
  show ?thesis
    using r inf ne by (simp add: trigger_t1_def demo_store_empty_def)
qed

text \<open>
  C5 (amended). On a cache miss, for a trigger that references at least one function or
  has an unrecognized kind, resolve returns an error if and only if the kind of the
  reference is neither by-name nor by-weights (the error names the kind), or no store is
  registered for the trigger's namespace (an error naming the namespace), or the store
  does not return some referenced function: it reports the function absent (an error
  naming namespace and function) or its lookup fails (the store's error, passed on).
  Otherwise resolve returns a result. The store lookups of the call are a prefix of the
  referenced functions in order: each is looked up at most once, nothing is retried.
\<close>

theorem C5_errors_on_cache_miss:
  fixes h :: heap
  assumes miss: "cache_miss now frr trigger"
    and rng: "range_yields (FunctionWeights (FunctionReference (Spec trigger))) order"
    and nonempty: "Type (FunctionReference (Spec trigger)) = FunctionReferenceTypeFunctionWeights
                   \<longrightarrow> order \<noteq> []"
  defines "ns \<equiv> Namespace (ObjectMeta trigger)"
    and "out \<equiv> resolve now order trigger frr h"
  shows "(isl (fst out) \<longleftrightarrow>
            (\<exists>t. Type (FunctionReference (Spec trigger)) = OtherFunctionReferenceType t)
            \<or> funcInformer frr ns = None
            \<or> (\<exists>informer. funcInformer frr ns = Some informer
                  \<and> \<not> list_all (function_exists informer ns) (referenced trigger order)))
       \<and> (\<forall>t. Type (FunctionReference (Spec trigger)) = OtherFunctionReferenceType t \<longrightarrow>
              fst out = Inl (UnrecognizedFunctionReferenceType (OtherFunctionReferenceType t)))
       \<and> ((\<forall>t. Type (FunctionReference (Spec trigger)) \<noteq> OtherFunctionReferenceType t)
            \<and> funcInformer frr ns = None \<longrightarrow> fst out = Inl (InformerNotFound ns))
       \<and> (\<forall>informer. (\<forall>t. Type (FunctionReference (Spec trigger)) \<noteq> OtherFunctionReferenceType t)
            \<and> funcInformer frr ns = Some informer
            \<and> \<not> list_all (function_exists informer ns) (referenced trigger order) \<longrightarrow>
            (\<exists>n. n \<in> set (referenced trigger order)
               \<and> (informer ns n = NotExist \<and> fst out = Inl (FunctionDoesNotExist ns n)
                  \<or> (\<exists>e. informer ns n = GetError e \<and> fst out = Inl (StoreError e)))))
       \<and> (\<exists>k. k \<le> length (referenced trigger order)
              \<and> lookups out = map (Pair ns) (take k (referenced trigger order)))"
proof -
  from miss have m: "cache_Get now (refCache frr) (nfr_of trigger) = None"
    by (simp add: cache_miss_def)
  show ?thesis
  proof (cases "Type (FunctionReference (Spec trigger))")
    case FunctionReferenceTypeFunctionName
    let ?nm = "RefName (FunctionReference (Spec trigger))"
    have ref: "referenced trigger order = [?nm]"
      by (simp add: referenced_def FunctionReferenceTypeFunctionName)
    have out: "fst out = fst (resolveByName frr ns ?nm h)"
      by (simp add: out_def ns_def resolve_miss_fst[OF m] FunctionReferenceTypeFunctionName)
    have lk: "lookups out = snd (snd (resolveByName frr ns ?nm h))"
      by (simp add: out_def ns_def resolve_miss_lookups[OF m] FunctionReferenceTypeFunctionName)
    show ?thesis
    proof (cases "funcInformer frr ns")
      case None
      have "lookups out = map (Pair ns) (take 0 (referenced trigger order))"
        by (simp add: lk resolveByName_lookups None)
      then have "\<exists>k. k \<le> length (referenced trigger order)
              \<and> lookups out = map (Pair ns) (take k (referenced trigger order))"
        by blast
      then show ?thesis
        by (simp add: out resolveByName_fst None FunctionReferenceTypeFunctionName)
    next
      case (Some informer)
      have "lookups out = map (Pair ns) (take 1 (referenced trigger order))"
        by (simp add: lk resolveByName_lookups Some ref)
      moreover have "1 \<le> length (referenced trigger order)"
        by (simp add: ref)
      ultimately have "\<exists>k. k \<le> length (referenced trigger order)
              \<and> lookups out = map (Pair ns) (take k (referenced trigger order))"
        by blast
      then show ?thesis
        by (cases "informer ns ?nm")
          (simp_all add: out resolveByName_fst Some FunctionReferenceTypeFunctionName ref
            function_exists_def)
    qed
  next
    case FunctionReferenceTypeFunctionWeights
    have ref: "referenced trigger order = map fst order"
      by (simp add: referenced_def FunctionReferenceTypeFunctionWeights)
    from nonempty FunctionReferenceTypeFunctionWeights have ne: "order \<noteq> []" by simp
    have out: "fst out = fst (resolveByFunctionWeights frr ns order h)"
      by (simp add: out_def ns_def resolve_miss_fst[OF m] FunctionReferenceTypeFunctionWeights)
    have lk: "lookups out = snd (weights_loop frr ns order Map.empty [] 0)"
      by (simp add: out_def ns_def resolve_miss_lookups[OF m] resolveByFunctionWeights_lookups
          FunctionReferenceTypeFunctionWeights)
    obtain r tr where loop: "weights_loop frr ns order Map.empty [] 0 = (r, tr)"
      by (cases "weights_loop frr ns order Map.empty [] 0")
    from weights_loop_trace[OF loop] have tr: "\<exists>k. k \<le> length (referenced trigger order)
              \<and> lookups out = map (Pair ns) (take k (referenced trigger order))"
      by (auto simp: lk loop ref)
    show ?thesis
    proof (cases "funcInformer frr ns")
      case None
      from weights_loop_no_informer[OF None ne]
      have "fst out = Inl (InformerNotFound ns)"
        by (simp add: out resolveByFunctionWeights_fst)
      with tr show ?thesis
        by (simp add: None FunctionReferenceTypeFunctionWeights)
    next
      case (Some informer)
      show ?thesis
      proof (cases "list_all (function_exists informer ns) (map fst order)")
        case True
        from weights_loop_all_exist[OF Some True]
        have "\<not> isl (fst out)"
          by (simp add: out resolveByFunctionWeights_fst)
        with tr show ?thesis
          by (simp add: Some True ref FunctionReferenceTypeFunctionWeights)
      next
        case False
        from weights_loop_missing[OF Some False, of Map.empty "[]" 0]
        obtain err tr' n where
          l: "weights_loop frr ns order Map.empty [] 0 = (Inl err, tr')"
          and n: "n \<in> set (map fst order)"
          and e: "informer ns n = NotExist \<and> err = FunctionDoesNotExist ns n
                  \<or> (\<exists>e. informer ns n = GetError e \<and> err = StoreError e)"
          by blast
        have o: "fst out = Inl err"
          by (simp add: out resolveByFunctionWeights_fst l)
        have "\<exists>n. n \<in> set (referenced trigger order)
               \<and> (informer ns n = NotExist \<and> fst out = Inl (FunctionDoesNotExist ns n)
                  \<or> (\<exists>e. informer ns n = GetError e \<and> fst out = Inl (StoreError e)))"
          using n e o ref by auto
        with tr o show ?thesis
          by (simp add: Some False ref FunctionReferenceTypeFunctionWeights)
      qed
    qed
  next
    case (OtherFunctionReferenceType t)
    have ref: "referenced trigger order = []"
      by (simp add: referenced_def OtherFunctionReferenceType)
    have out: "fst out = Inl (UnrecognizedFunctionReferenceType (OtherFunctionReferenceType t))"
      by (simp add: out_def resolve_miss_fst[OF m] OtherFunctionReferenceType)
    have lk: "lookups out = []"
      by (simp add: out_def resolve_miss_lookups[OF m] OtherFunctionReferenceType)
    show ?thesis
      by (simp add: out lk ref OtherFunctionReferenceType)
  qed
qed

theorem C5_errors_on_cache_miss_witness:
  "cache_miss 0 demo_resolver_without_fB trigger_t2
   \<and> range_yields (FunctionWeights (FunctionReference (Spec trigger_t2))) [(''fA'', 70), (''fB'', 30)]
   \<and> [(''fA'', 70 :: go_int), (''fB'', 30)] \<noteq> []
   \<and> funcInformer demo_resolver_without_fB (Namespace (ObjectMeta trigger_t2))
       = Some demo_store_without_fB
   \<and> \<not> list_all (function_exists demo_store_without_fB (Namespace (ObjectMeta trigger_t2)))
          (referenced trigger_t2 [(''fA'', 70), (''fB'', 30)])
   \<and> isl (fst (resolve 0 [(''fA'', 70), (''fB'', 30)] trigger_t2 demo_resolver_without_fB empty_heap))"
proof -
  have m: "cache_miss 0 demo_resolver_without_fB trigger_t2"
    by (simp add: cache_miss_def demo_resolver_without_fB_def makeFunctionReferenceResolver_def
        MakeCache_def cache_Get_def)
  have r: "range_yields (FunctionWeights (FunctionReference (Spec trigger_t2)))
             [(''fA'', 70), (''fB'', 30)]"
    by (auto simp: range_yields_def trigger_t2_def fun_eq_iff)
  have ne: "Type (FunctionReference (Spec trigger_t2)) = FunctionReferenceTypeFunctionWeights
            \<longrightarrow> [(''fA'', 70 :: go_int), (''fB'', 30)] \<noteq> []"
    by simp
  have inf: "funcInformer demo_resolver_without_fB (Namespace (ObjectMeta trigger_t2))
             = Some demo_store_without_fB"
    by (simp add: demo_resolver_without_fB_def makeFunctionReferenceResolver_def trigger_t2_def)
  have missing: "\<not> list_all (function_exists demo_store_without_fB (Namespace (ObjectMeta trigger_t2)))
          (referenced trigger_t2 [(''fA'', 70), (''fB'', 30)])"
    by (simp add: referenced_def trigger_t2_def function_exists_def demo_store_without_fB_def)
  from C5_errors_on_cache_miss[OF m r ne, of empty_heap] inf missing
  have "isl (fst (resolve 0 [(''fA'', 70), (''fB'', 30)] trigger_t2 demo_resolver_without_fB
                   empty_heap))"
    by blast
  with m r inf missing show ?thesis by simp
qed

section \<open>Function map and distribution list\<close>

text \<open>
  C8. In every state the resolver reaches by calls of resolve, calls of delete and updates
  of its stores, where the stores return objects under the names they are asked for, every
  cached result and every result a snapshot returns satisfies the invariant: when its
  distribution list is not empty, the key set of its function map is the set of the
  function names in the list. Every result that resolve returns from such a state
  satisfies it too, and so does every result cached after the call.
\<close>

theorem C8_keys_match_distribution:
  assumes "reachable keyed_call frr h"
  shows "(\<forall>k e. entries (refCache frr) k = Some e \<longrightarrow> keys_match h (val e))
       \<and> (\<forall>t k r. copy t frr k = Some r \<longrightarrow> keys_match h r)
       \<and> (\<forall>now order trigger rr frr' h' tr.
            store_keyed frr \<and> resolve now order trigger frr h = (Inr rr, frr', h', tr) \<longrightarrow>
            keys_match h' rr
            \<and> (\<forall>k e. entries (refCache frr') k = Some e \<longrightarrow> keys_match h' (val e)))"
proof -
  from reachable_keys_match[OF assms] have inv: "cache_keys_match h frr" .
  have cached: "\<forall>k e. entries (refCache frr) k = Some e \<longrightarrow> keys_match h (val e)"
    using inv by (simp add: cache_keys_match_def)
  have snap: "\<forall>t k r. copy t frr k = Some r \<longrightarrow> keys_match h r"
    using cached by (auto simp: copy_def cache_Copy_def dest!: cache_Get_Some_D)
  have next_call: "keys_match h' rr \<and> (\<forall>k e. entries (refCache frr') k = Some e \<longrightarrow> keys_match h' (val e))"
    if "store_keyed frr" "resolve now order trigger frr h = (Inr rr, frr', h', tr)"
    for now order trigger rr frr' h' tr
    using resolve_keeps_keys_match[OF inv that] by (simp add: cache_keys_match_def)
  show ?thesis
    using cached snap next_call by blast
qed

theorem C8_keys_match_distribution_witness:
  "reachable keyed_call demo_resolver empty_heap
   \<and> store_keyed demo_resolver
   \<and> resolve 0 [(''fA'', 70), (''fB'', 30)] trigger_t2 demo_resolver empty_heap =
       (Inr demo_rr2, demo_frr2, demo_h2, [(''default'', ''fA''), (''default'', ''fB'')])
   \<and> slice_elems demo_h2 (functionWtDistributionList demo_rr2) \<noteq> []
   \<and> dom (map_elems demo_h2 (functionMap demo_rr2)) = {''fA'', ''fB''}
   \<and> set (map name (slice_elems demo_h2 (functionWtDistributionList demo_rr2))) = {''fA'', ''fB''}"
proof -
  have r: "reachable keyed_call demo_resolver empty_heap"
    unfolding demo_resolver_def by (rule reachable.start)
  from C8_keys_match_distribution[OF r] demo_store_keyed demo_resolve_t2
  have k: "keys_match demo_h2 demo_rr2" by blast
  have l: "slice_elems demo_h2 (functionWtDistributionList demo_rr2) =
           [\<lparr>name = ''fA'', weight = 70, sumPrefix = 70\<rparr>,
            \<lparr>name = ''fB'', weight = 30, sumPrefix = 100\<rparr>]"
    by (simp add: slice_elems_def demo_h2_def demo_rr2_def)
  from k l have "dom (map_elems demo_h2 (functionMap demo_rr2)) = {''fA'', ''fB''}"
    by (simp add: keys_match_def)
  with r demo_store_keyed demo_resolve_t2 l show ?thesis by simp
qed

section \<open>Type tags\<close>

lemma card_dom_map_of:
  "distinct (map fst xs) \<Longrightarrow> card (dom (map_of xs)) = length xs"
  by (simp add: dom_map_of_conv_image_fst distinct_card flip: set_map)

text \<open>
  C10. In every state the resolver reaches, where the version token of a trigger
  determines its function reference, a successful resolve returns a result whose type tag
  fits the trigger's reference: for a reference by name the tag is single function and
  the distribution list is the nil slice; for a reference by weights the tag is multiple
  functions and the list has exactly one entry per declared (name, weight) pair, with
  pairwise distinct names.
\<close>

theorem C10_tag_fits_reference:
  assumes "reachable (versioned_call spec_of) frr h"
    and "version_determines spec_of trigger"
    and "range_yields (FunctionWeights (FunctionReference (Spec trigger))) order"
    and "resolve now order trigger frr h = (Inr rr, frr', h', tr)"
  shows "tag_fits h' (FunctionReference (Spec trigger)) rr
       \<and> (Type (FunctionReference (Spec trigger)) = FunctionReferenceTypeFunctionName \<longrightarrow>
            resolveResultType rr = resolveResultSingleFunction
            \<and> slice_elems h' (functionWtDistributionList rr) = [])
       \<and> (Type (FunctionReference (Spec trigger)) = FunctionReferenceTypeFunctionWeights \<longrightarrow>
            resolveResultType rr = resolveResultMultipleFunctions
            \<and> distinct (map name (slice_elems h' (functionWtDistributionList rr)))
            \<and> map_of (map (\<lambda>e. (name e, weight e)) (slice_elems h' (functionWtDistributionList rr)))
                = FunctionWeights (FunctionReference (Spec trigger))
            \<and> length (slice_elems h' (functionWtDistributionList rr))
                = card (dom (FunctionWeights (FunctionReference (Spec trigger)))))"
proof -
  let ?l = "slice_elems h' (functionWtDistributionList rr)"
  from reachable_tags_fit[OF assms(1)] have inv: "cache_tags_fit spec_of h frr" .
  from resolve_keeps_tags_fit[OF inv assms(2,3,4)]
  have fits: "tag_fits h' (FunctionReference (Spec trigger)) rr" by simp
  have by_name: "resolveResultType rr = resolveResultSingleFunction \<and> ?l = []"
    if "Type (FunctionReference (Spec trigger)) = FunctionReferenceTypeFunctionName"
    using fits that by (simp add: tag_fits_def slice_elems_def)
  have by_weights: "resolveResultType rr = resolveResultMultipleFunctions
      \<and> distinct (map name ?l)
      \<and> map_of (map (\<lambda>e. (name e, weight e)) ?l) = FunctionWeights (FunctionReference (Spec trigger))
      \<and> length ?l = card (dom (FunctionWeights (FunctionReference (Spec trigger))))"
    if ty: "Type (FunctionReference (Spec trigger)) = FunctionReferenceTypeFunctionWeights"
  proof -
    from fits ty have t: "resolveResultType rr = resolveResultMultipleFunctions"
      and d: "distinct (map name ?l)"
      and m: "map_of (map (\<lambda>e. (name e, weight e)) ?l)
              = FunctionWeights (FunctionReference (Spec trigger))"
      by (simp_all add: tag_fits_def)
    have "map fst (map (\<lambda>e. (name e, weight e)) ?l) = map name ?l"
      by simp
    with d have "distinct (map fst (map (\<lambda>e. (name e, weight e)) ?l))"
      by (simp only:)
    from card_dom_map_of[OF this] m
    have "length ?l = card (dom (FunctionWeights (FunctionReference (Spec trigger))))"
      by simp
    with t d m show ?thesis by simp
  qed
  show ?thesis
    using fits by_name by_weights by blast
qed

theorem C10_tag_fits_reference_witness:
  "reachable (versioned_call demo_spec_of) demo_frr1 demo_h1
   \<and> version_determines demo_spec_of trigger_t1
   \<and> range_yields (FunctionWeights (FunctionReference (Spec trigger_t1))) []
   \<and> resolve 59000000000 [] trigger_t1 demo_frr1 demo_h1 = (Inr demo_rr1, demo_frr1, demo_h1, [])
   \<and> Type (FunctionReference (Spec trigger_t1)) = FunctionReferenceTypeFunctionName
   \<and> tag_fits demo_h1 (FunctionReference (Spec trigger_t1)) demo_rr1
   \<and> resolveResultType demo_rr1 = resolveResultSingleFunction
   \<and> slice_elems demo_h1 (functionWtDistributionList demo_rr1) = []"
proof -
  have vd: "version_determines demo_spec_of trigger_t1"
    by (simp add: version_determines_def demo_spec_of_def nfr_of_def trigger_t1_def)
  then have call: "versioned_call demo_spec_of demo_resolver trigger_t1"
    by (simp add: versioned_call_def)
  have rng: "range_yields (FunctionWeights (FunctionReference (Spec trigger_t1))) []"
    by (simp add: range_yields_def trigger_t1_def)
  have r0: "reachable (versioned_call demo_spec_of) demo_resolver empty_heap"
    unfolding demo_resolver_def by (rule reachable.start)
  have r1: "reachable (versioned_call demo_spec_of) demo_frr1 demo_h1"
    by (rule reachable.resolved[OF r0 call rng demo_resolve_t1])
  have hit: "cache_Get 59000000000 (refCache demo_frr1) (nfr_of trigger_t1) = Some demo_rr1"
    by (simp add: demo_frr1_def cache_Set_def cache_Get_def demo_resolver_def
        makeFunctionReferenceResolver_def MakeCache_def time_Minute_def)
  have again: "resolve 59000000000 [] trigger_t1 demo_frr1 demo_h1
               = (Inr demo_rr1, demo_frr1, demo_h1, [])"
    by (rule resolve_hit[OF hit])
  have ty: "Type (FunctionReference (Spec trigger_t1)) = FunctionReferenceTypeFunctionName"
    by (simp add: trigger_t1_def)
  from C10_tag_fits_reference[OF r1 vd rng again] ty
  have "tag_fits demo_h1 (FunctionReference (Spec trigger_t1)) demo_rr1
        \<and> resolveResultType demo_rr1 = resolveResultSingleFunction
        \<and> slice_elems demo_h1 (functionWtDistributionList demo_rr1) = []"
    by blast
  with r1 vd rng again ty show ?thesis by simp
qed

section \<open>What a caller can reach through a result\<close>

text \<open>
  C9 as stated fails: the result that resolve returns for t1 holds the reference to the
  function map that the cached entry holds. After the caller assigns to a key of that map,
  the cached entry (which a snapshot and every later cache hit return) reads the assigned
  function.
\<close>

theorem C9_shared_map_counterexample:
  "resolve 0 [] trigger_t1 demo_resolver empty_heap =
     (Inr demo_rr1, demo_frr1, demo_h1, [(''default'', ''f1'')])
   \<and> copy 5 demo_frr1 (nfr_of trigger_t1) = Some demo_rr1
   \<and> map_store (functionMap demo_rr1) ''f1'' (demo_function ''fB'') demo_h1 = Some demo_h1_written
   \<and> result_functions (resolve 5 [] trigger_t1 demo_frr1 demo_h1)
       = [''f1'' \<mapsto> demo_function ''f1'']
   \<and> result_functions (resolve 5 [] trigger_t1 demo_frr1 demo_h1_written)
       = [''f1'' \<mapsto> demo_function ''fB'']
   \<and> demo_function ''fB'' \<noteq> demo_function ''f1''"
proof -
  have hit: "cache_Get 5 (refCache demo_frr1) (nfr_of trigger_t1) = Some demo_rr1"
    by (simp add: demo_frr1_def cache_Set_def cache_Get_def demo_resolver_def
        makeFunctionReferenceResolver_def MakeCache_def time_Minute_def)
  have snap: "copy 5 demo_frr1 (nfr_of trigger_t1) = Some demo_rr1"
    by (simp add: copy_def cache_Copy_def hit)
  have w: "map_store (functionMap demo_rr1) ''f1'' (demo_function ''fB'') demo_h1
           = Some demo_h1_written"
    by (simp add: map_store_def demo_rr1_def demo_h1_def demo_h1_written_def)
  have before: "result_functions (resolve 5 [] trigger_t1 demo_frr1 demo_h1)
                = [''f1'' \<mapsto> demo_function ''f1'']"
    by (simp add: resolve_hit[OF hit] result_functions_def map_elems_def demo_rr1_def demo_h1_def)
  have after: "result_functions (resolve 5 [] trigger_t1 demo_frr1 demo_h1_written)
               = [''f1'' \<mapsto> demo_function ''fB'']"
    by (simp add: resolve_hit[OF hit] result_functions_def map_elems_def demo_rr1_def
        demo_h1_written_def)
  have ne: "demo_function ''fB'' \<noteq> demo_function ''f1''"
    by (simp add: demo_function_def)
  show ?thesis
    using demo_resolve_t1[of "[]"] snap w before after ne by simp
qed

text \<open>
  C9 (amended). resolve and snapshot return the result struct by value: the struct that
  the cache holds under the key, with the same references to the function map and to the
  array of the distribution list. A write through the map or the slice of a returned
  result is a write to the map or array of the cached entry, and the entry reads it;
  a write to any other map leaves the map and the list of an entry as they are.
\<close>

theorem C9_results_share_map_and_array:
  assumes "resolve now order trigger frr h = (Inr rr, frr', h', tr)"
  shows "(\<exists>e. entries (refCache frr') (nfr_of trigger) = Some e \<and> val e = rr)
       \<and> (\<forall>t k r. copy t frr' k = Some r \<longrightarrow>
            (\<exists>e. entries (refCache frr') k = Some e \<and> val e = r))
       \<and> (\<forall>n f h'' e. map_store (functionMap rr) n f h' = Some h''
              \<and> entries (refCache frr') (nfr_of trigger) = Some e \<longrightarrow>
            map_elems h'' (functionMap (val e)) = (map_elems h' (functionMap (val e)))(n \<mapsto> f))
       \<and> (\<forall>i x h'' e. slice_store (functionWtDistributionList rr) i x h' = Some h''
              \<and> entries (refCache frr') (nfr_of trigger) = Some e \<longrightarrow>
            slice_elems h'' (functionWtDistributionList (val e))
              = (slice_elems h' (functionWtDistributionList (val e)))[i := x])
       \<and> (\<forall>a n f h'' r. map_store a n f h' = Some h'' \<and> a \<noteq> functionMap r \<longrightarrow>
            map_elems h'' (functionMap r) = map_elems h' (functionMap r)
            \<and> slice_elems h'' (functionWtDistributionList r)
                = slice_elems h' (functionWtDistributionList r))"
proof -
  from resolve_Inr_cached(1)[OF assms]
  have cached: "\<exists>e. entries (refCache frr') (nfr_of trigger) = Some e \<and> val e = rr" .
  have snap: "\<forall>t k r. copy t frr' k = Some r \<longrightarrow>
            (\<exists>e. entries (refCache frr') k = Some e \<and> val e = r)"
    by (auto simp: copy_def cache_Copy_def dest: cache_Get_Some_D)
  have map_write: "map_elems h'' (functionMap (val e)) = (map_elems h' (functionMap (val e)))(n \<mapsto> f)"
    if "map_store (functionMap rr) n f h' = Some h''"
      "entries (refCache frr') (nfr_of trigger) = Some e" for n f h'' e
  proof -
    from cached that(2) have "val e = rr" by auto
    with that(1) show ?thesis
      by (auto simp: map_store_def map_elems_def split: option.splits)
  qed
  have slice_write: "slice_elems h'' (functionWtDistributionList (val e))
              = (slice_elems h' (functionWtDistributionList (val e)))[i := x]"
    if "slice_store (functionWtDistributionList rr) i x h' = Some h''"
      "entries (refCache frr') (nfr_of trigger) = Some e" for i x h'' e
  proof -
    from cached that(2) have "val e = rr" by auto
    with that(1) show ?thesis
      by (auto simp: slice_store_def slice_elems_def split: option.splits if_splits)
  qed
  have frame: "map_elems h'' (functionMap r) = map_elems h' (functionMap r)
            \<and> slice_elems h'' (functionWtDistributionList r)
                = slice_elems h' (functionWtDistributionList r)"
    if "map_store a n f h' = Some h''" "a \<noteq> functionMap r" for a n f h'' r
    using that
    by (auto simp: map_store_def map_elems_def slice_elems_def split: option.splits)
  show ?thesis
    using cached snap map_write slice_write frame by blast
qed

theorem C9_results_share_map_and_array_witness:
  "resolve 0 [] trigger_t1 demo_resolver empty_heap =
     (Inr demo_rr1, demo_frr1, demo_h1, [(''default'', ''f1'')])
   \<and> map_store (functionMap demo_rr1) ''f1'' (demo_function ''fB'') demo_h1 = Some demo_h1_written
   \<and> entries (refCache demo_frr1) (nfr_of trigger_t1) = Some \<lparr>val = demo_rr1, ctime = 0\<rparr>
   \<and> map_elems demo_h1_written (functionMap (val \<lparr>val = demo_rr1, ctime = 0\<rparr>))
       = (map_elems demo_h1 (functionMap (val \<lparr>val = demo_rr1, ctime = 0\<rparr>)))
           (''f1'' \<mapsto> demo_function ''fB'')"
proof -
  have w: "map_store (functionMap demo_rr1) ''f1'' (demo_function ''fB'') demo_h1
           = Some demo_h1_written"
    by (simp add: map_store_def demo_rr1_def demo_h1_def demo_h1_written_def)
  have e: "entries (refCache demo_frr1) (nfr_of trigger_t1) = Some \<lparr>val = demo_rr1, ctime = 0\<rparr>"
    by (simp add: demo_frr1_def cache_Set_def)
  from C9_results_share_map_and_array[OF demo_resolve_t1[of "[]"]] w e
  have "map_elems demo_h1_written (functionMap (val \<lparr>val = demo_rr1, ctime = 0\<rparr>))
       = (map_elems demo_h1 (functionMap (val \<lparr>val = demo_rr1, ctime = 0\<rparr>)))
           (''f1'' \<mapsto> demo_function ''fB'')"
    by blast
  with demo_resolve_t1[of "[]"] w e show ?thesis by simp
qed

end
